theory Spec2Isabelle
  imports Main "HOL-Library.Monad_Syntax"
begin

section \<open>The VTY I/O FIFO (vio_fifo.c)\<close>

text \<open>
  A FIFO is a doubly linked list of lumps of \<open>size\<close> bytes each and a set of pointers
  into the lumps.  The model keeps the C structure field by field.

  \<^item> A lump is identified by a number: \<open>own_lump\<close> (the lump embedded in the FIFO
    structure) is 0, the lump returned by the n-th \<open>XMALLOC\<close> is n.
  \<^item> A \<open>char*\<close> into a lump is \<open>Ptr l i\<close>, the address \<open>l->data + i\<close>.  A lump's
    \<open>data\<close> is \<open>Ptr l 0\<close> and its \<open>end\<close> is \<open>Ptr l size\<close>.  The lump header lies
    between the data of two lumps, so two such pointers are equal exactly when lump
    and offset are.
  \<^item> A \<open>char**\<close> (\<open>p_start\<close>, \<open>p_end\<close>, \<open>p_get_end\<close>) is the name of the field it
    points at.
  \<^item> The intrusive list \<open>base\<close> is the list of its lumps, head first.
  \<^item> An operation returns \<open>None\<close> where the C program does not return: a failed
    \<open>assert\<close>, a dereferenced NULL, a pointer taken outside its lump, a loop
    that does not end.
  \<^item> \<open>ulen\<close> is the 32-bit \<open>unsigned int\<close> (its \<open>typedef\<close> is in misc.h, which is not
    among the sources).  The one \<open>ulen\<close> computation that can wrap around is the rounding
    of the lump size in \<open>vio_fifo_new\<close>, and there the reduction modulo \<open>2 ^ 32\<close> is
    written out.  Every other \<open>ulen\<close> and \<open>int\<close> value is a count of bytes bounded by a
    lump size, a request or the length of a buffer, and is kept as a natural number
    or an integer.
  \<^item> \<open>vio_fifo_debug\<close> is false (the checks under it and \<open>VIO_FIFO_DEBUG_VERIFY\<close> are
    compiled out); allocation succeeds and gives a block of the bytes asked for.
\<close>

type_synonym lump = nat

datatype ptr = Null | Ptr lump nat

datatype field = F_hold_ptr | F_get_ptr | F_end_ptr | F_put_ptr | F_lump_end lump

record vio_fifo =
  base :: "lump list"
  p_start :: field
  hold_ptr :: ptr
  get_lump :: lump
  get_ptr :: ptr
  p_get_end :: field
  end_lump :: lump
  end_ptr :: ptr
  put_ptr :: ptr
  put_end :: ptr
  p_end :: field
  size_lump :: nat
  spare :: "lump option"
  mem :: "lump \<Rightarrow> char list"
  nalloc :: nat
  freed :: "lump list"

text \<open>
  The last three fields are the memory the structure lives in: \<open>mem l\<close> is the
  \<open>data\<close> array of lump \<open>l\<close>, \<open>nalloc\<close> counts the calls of \<open>XMALLOC\<close> and \<open>freed\<close>
  lists the lumps given to \<open>XFREE\<close>, latest first.
\<close>

definition own_lump :: lump where
  "own_lump = 0"

text \<open>Modelled from the spec: \<open>VIO_FIFO_DEFAULT_LUMP_SIZE\<close> is declared in vio_fifo.h, which
  is not among the sources; the spec names a process-wide default and 4096 bytes.\<close>

definition VIO_FIFO_DEFAULT_LUMP_SIZE :: nat where
  "VIO_FIFO_DEFAULT_LUMP_SIZE = 4096"

subsection \<open>Pointers\<close>

fun ptr_add :: "ptr \<Rightarrow> nat \<Rightarrow> ptr" where
  "ptr_add Null n = Null"
| "ptr_add (Ptr l i) n = Ptr l (i + n)"

text \<open>\<open>p - q\<close> and \<open>p >= q\<close> are taken inside one lump only.\<close>

fun ptr_diff :: "ptr \<Rightarrow> ptr \<Rightarrow> nat option" where
  "ptr_diff (Ptr l i) (Ptr m j) = (if l = m \<and> j \<le> i then Some (i - j) else None)"
| "ptr_diff p q = None"

fun ptr_ge :: "ptr \<Rightarrow> ptr \<Rightarrow> bool option" where
  "ptr_ge (Ptr l i) (Ptr m j) = (if l = m then Some (j \<le> i) else None)"
| "ptr_ge p q = None"

fun deref :: "vio_fifo \<Rightarrow> field \<Rightarrow> ptr" where
  "deref v F_hold_ptr = hold_ptr v"
| "deref v F_get_ptr = get_ptr v"
| "deref v F_end_ptr = end_ptr v"
| "deref v F_put_ptr = put_ptr v"
| "deref v (F_lump_end l) = Ptr l (size_lump v)"

text \<open>\<open>memcpy\<close> into and out of a lump; a copy that leaves the lump does not return.\<close>

fun memcpy_in :: "vio_fifo \<Rightarrow> ptr \<Rightarrow> char list \<Rightarrow> vio_fifo option" where
  "memcpy_in v Null bs = None"
| "memcpy_in v (Ptr l i) bs =
     (if i + length bs \<le> length (mem v l)
      then Some (v\<lparr>mem := (mem v)(l := take i (mem v l) @ bs @ drop (i + length bs) (mem v l))\<rparr>)
      else None)"

fun memcpy_out :: "vio_fifo \<Rightarrow> ptr \<Rightarrow> nat \<Rightarrow> char list option" where
  "memcpy_out v Null n = None"
| "memcpy_out v (Ptr l i) n =
     (if i + n \<le> length (mem v l) then Some (take n (drop i (mem v l))) else None)"

subsection \<open>The list of lumps\<close>

text \<open>Modelled from the spec: the \<open>ddl_\<close> macros of list_util.h are not among the sources; the
  spec has an ordered list of lumps, oldest first.  \<open>ddl_pop\<close> takes the head off and
  \<open>ddl_crop\<close> the tail; both give NULL on an empty list.\<close>

definition ddl_head :: "lump list \<Rightarrow> lump option" where
  "ddl_head b = (case b of [] \<Rightarrow> None | l # _ \<Rightarrow> Some l)"

definition ddl_tail :: "lump list \<Rightarrow> lump option" where
  "ddl_tail b = (if b = [] then None else Some (last b))"

fun ddl_next :: "lump list \<Rightarrow> lump \<Rightarrow> lump option" where
  "ddl_next [] l = None"
| "ddl_next (x # xs) l = (if x = l then ddl_head xs else ddl_next xs l)"

definition ddl_pop :: "lump list \<Rightarrow> lump option \<times> lump list" where
  "ddl_pop b = (case b of [] \<Rightarrow> (None, []) | l # rest \<Rightarrow> (Some l, rest))"

definition ddl_crop :: "lump list \<Rightarrow> lump option \<times> lump list" where
  "ddl_crop b = (if b = [] then (None, []) else (Some (last b), butlast b))"

definition ddl_append :: "lump list \<Rightarrow> lump \<Rightarrow> lump list" where
  "ddl_append b l = b @ [l]"

subsection \<open>Marks, pointer reset, lump release\<close>

definition vio_fifo_have_hold_mark :: "vio_fifo \<Rightarrow> bool" where
  "vio_fifo_have_hold_mark v = (p_start v = F_hold_ptr)"

definition vio_fifo_have_end_mark :: "vio_fifo \<Rightarrow> bool" where
  "vio_fifo_have_end_mark v = (p_end v = F_end_ptr)"

definition vio_fifo_reset_ptrs :: "vio_fifo \<Rightarrow> vio_fifo option" where
  "vio_fifo_reset_ptrs v =
     (case ddl_tail (base v) of
        None \<Rightarrow> None
      | Some t \<Rightarrow> Some (v\<lparr>hold_ptr := Ptr t 0, get_ptr := Ptr t 0,
                          end_ptr := Ptr t 0, put_ptr := Ptr t 0\<rparr>))"

definition vio_fifo_set_get_end :: "vio_fifo \<Rightarrow> vio_fifo" where
  "vio_fifo_set_get_end v =
     v\<lparr>p_get_end := (if get_lump v = end_lump v then p_end v else F_lump_end (get_lump v))\<rparr>"

text \<open>The source stores \<open>lump->data\<close> in \<open>get_ptr\<close>; its third argument is not used.\<close>

definition vio_fifo_set_get_ptr :: "vio_fifo \<Rightarrow> lump \<Rightarrow> ptr \<Rightarrow> vio_fifo" where
  "vio_fifo_set_get_ptr v l p = vio_fifo_set_get_end (v\<lparr>get_lump := l, get_ptr := Ptr l 0\<rparr>)"

definition XFREE :: "vio_fifo \<Rightarrow> lump \<Rightarrow> vio_fifo" where
  "XFREE v l = v\<lparr>freed := l # freed v\<rparr>"

text \<open>C leaves the contents of a lump from \<open>XMALLOC\<close> open; here they are zero bytes.\<close>

definition XMALLOC :: "vio_fifo \<Rightarrow> lump \<times> vio_fifo" where
  "XMALLOC v =
     (Suc (nalloc v),
      v\<lparr>nalloc := Suc (nalloc v),
        mem := (mem v)(Suc (nalloc v) := replicate (size_lump v) (CHR 0x00))\<rparr>)"

definition vio_fifo_release_lump :: "vio_fifo \<Rightarrow> lump option \<Rightarrow> vio_fifo option" where
  "vio_fifo_release_lump v lp =
     (case lp of
        None \<Rightarrow> None
      | Some l \<Rightarrow>
          if l = get_lump v then None
          else if l = end_lump v then None
          else (case spare v of
                  None \<Rightarrow> Some (v\<lparr>spare := Some l\<rparr>)
                | Some sp \<Rightarrow>
                    if l = own_lump then Some (XFREE (v\<lparr>spare := Some own_lump\<rparr>) sp)
                    else Some (XFREE v l)))"

function vio_fifo_release_upto :: "vio_fifo \<Rightarrow> lump \<Rightarrow> vio_fifo option" where
  "vio_fifo_release_upto v upto_l =
     (if ddl_head (base v) \<noteq> Some upto_l
      then (case ddl_pop (base v) of
              (lp, rest) \<Rightarrow>
                (case vio_fifo_release_lump (v\<lparr>base := rest\<rparr>) lp of
                   None \<Rightarrow> None
                 | Some v1 \<Rightarrow> vio_fifo_release_upto v1 upto_l))
      else Some v)"
  by pat_completeness auto
termination
  by (relation "measure (\<lambda>(v, upto_l). length (base v))")
     (auto simp: ddl_pop_def vio_fifo_release_lump_def XFREE_def
           split: list.splits option.splits if_splits)

declare vio_fifo_release_upto.simps [simp del]

definition vio_fifo_sync_get :: "vio_fifo \<Rightarrow> vio_fifo option" where
  "vio_fifo_sync_get v =
     (if get_lump v = end_lump v
      then (if deref v (p_start v) = put_ptr v then vio_fifo_reset_ptrs v else Some v)
      else (case ddl_next (base v) (get_lump v) of
              None \<Rightarrow> None
            | Some gl \<Rightarrow>
                let v1 = vio_fifo_set_get_ptr v gl (Ptr gl 0)
                in if \<not> vio_fifo_have_hold_mark v1 then vio_fifo_release_upto v1 gl
                   else Some v1))"

subsection \<open>Initialisation and growth\<close>

text \<open>A value as a \<open>ulen\<close> holds it.\<close>

definition ulen :: "nat \<Rightarrow> nat" where
  "ulen n = nat (int n mod 2 ^ 32)"

text \<open>The rounding \<open>((size + 128 - 1) / 128) * 128\<close> is done in \<open>ulen\<close>: for the 127
  sizes above \<open>2 ^ 32 - 128\<close> the sum wraps around and the lump size is 0.\<close>

definition vio_fifo_new :: "nat \<Rightarrow> vio_fifo" where
  "vio_fifo_new sz =
     (let sz1 = (if ulen sz = 0 then VIO_FIFO_DEFAULT_LUMP_SIZE else ulen sz);
          sz2 = ulen (ulen (sz1 + 128 - 1) div 128 * 128)
      in \<lparr>base = ddl_append [] own_lump,
          p_start = F_get_ptr,
          hold_ptr = Null,
          get_lump = own_lump,
          get_ptr = Ptr own_lump 0,
          p_get_end = F_put_ptr,
          end_lump = own_lump,
          end_ptr = Null,
          put_ptr = Ptr own_lump 0,
          put_end = Ptr own_lump sz2,
          p_end = F_put_ptr,
          size_lump = sz2,
          spare = None,
          mem = (\<lambda>l. replicate sz2 (CHR 0x00)),
          nalloc = 0,
          freed = []\<rparr>)"

definition vio_fifo_clear :: "vio_fifo \<Rightarrow> bool \<Rightarrow> vio_fifo option" where
  "vio_fifo_clear v clear_marks =
     (case ddl_tail (base v) of
        None \<Rightarrow> None
      | Some l \<Rightarrow>
          do {
            v1 \<leftarrow> vio_fifo_release_upto v l;
            v2 \<leftarrow> vio_fifo_reset_ptrs (v1\<lparr>get_lump := l, end_lump := l\<rparr>);
            let v3 = (if clear_marks then v2\<lparr>p_start := F_get_ptr, p_end := F_put_ptr\<rparr> else v2);
            Some (v3\<lparr>p_get_end := p_end v3\<rparr>)
          })"

definition vio_fifo_add_lump :: "vio_fifo \<Rightarrow> vio_fifo option" where
  "vio_fifo_add_lump v =
     (if put_ptr v \<noteq> put_end v then None
      else if put_ptr v = deref v (p_start v) then None
      else
        let (l, v1) = (case spare v of
                         Some sp \<Rightarrow> (sp, v\<lparr>spare := None\<rparr>)
                       | None \<Rightarrow> XMALLOC (v\<lparr>spare := None\<rparr>));
            v2 = v1\<lparr>base := ddl_append (base v1) l\<rparr>;
            v3 = (if get_ptr v2 = put_ptr v2
                  then v2\<lparr>get_lump := l, get_ptr := Ptr l 0\<rparr> else v2);
            v4 = (if put_ptr v3 = deref v3 (p_end v3)
                  then v3\<lparr>end_lump := l, end_ptr := Ptr l 0\<rparr> else v3);
            v5 = v4\<lparr>put_ptr := Ptr l 0, put_end := Ptr l (size_lump v4)\<rparr>
        in Some (vio_fifo_set_get_end v5))"

subsection \<open>Putting\<close>

text \<open>The bytes \<open>src[0..n)\<close> are the list \<open>src\<close>, and \<open>n\<close> is its length.  With lumps
  of no bytes the loop does not end.\<close>

partial_function (option) vio_fifo_put_bytes :: "vio_fifo \<Rightarrow> char list \<Rightarrow> vio_fifo option" where
  "vio_fifo_put_bytes v src =
     (if length src > 0
      then do {
        full \<leftarrow> ptr_ge (put_ptr v) (put_end v);
        v1 \<leftarrow> (if full then vio_fifo_add_lump v else Some v);
        room \<leftarrow> ptr_diff (put_end v1) (put_ptr v1);
        let tk = (if room > length src then length src else room);
        v2 \<leftarrow> memcpy_in v1 (put_ptr v1) (take tk src);
        vio_fifo_put_bytes (v2\<lparr>put_ptr := ptr_add (put_ptr v2) tk\<rparr>) (drop tk src)
      }
      else Some v)"

declare vio_fifo_put_bytes.simps [code]

text \<open>Modelled from the spec: \<open>read_nb\<close> of network.c is not among the sources.  A
  descriptor is the list of what its next reads give: some bytes, would-block,
  an error or end of input; \<open>read_nb\<close> returns the number of bytes, 0, -1 or -2.
  A descriptor with nothing more listed would block.\<close>

datatype rd = Rd_bytes "char list" | Rd_block | Rd_error | Rd_eof

fun rd_got :: "rd \<Rightarrow> int" where
  "rd_got (Rd_bytes bs) = int (length bs)"
| "rd_got Rd_block = 0"
| "rd_got Rd_error = - 1"
| "rd_got Rd_eof = - 2"

fun rd_data :: "rd \<Rightarrow> char list" where
  "rd_data (Rd_bytes bs) = bs"
| "rd_data r = []"

fun vio_fifo_read_loop ::
  "vio_fifo \<Rightarrow> rd list \<Rightarrow> nat \<Rightarrow> nat \<Rightarrow> (vio_fifo \<times> int) option" where
  "vio_fifo_read_loop v [] request tot =
     do {
       full \<leftarrow> ptr_ge (put_ptr v) (put_end v);
       v1 \<leftarrow> (if full then vio_fifo_add_lump v else Some v);
       room \<leftarrow> ptr_diff (put_end v1) (put_ptr v1);
       Some (v1, int tot)
     }"
| "vio_fifo_read_loop v (r # fd) request tot =
     do {
       full \<leftarrow> ptr_ge (put_ptr v) (put_end v);
       v1 \<leftarrow> (if full then vio_fifo_add_lump v else Some v);
       let request1 = (if full \<and> request > 0 then request - 1 else request);
       room \<leftarrow> ptr_diff (put_end v1) (put_ptr v1);
       let got = rd_got r;
       if int room < got then None
       else if got \<le> 0
       then (if got = - 2
             then Some (v1, if tot > 0 then int tot else got)
             else Some (v1, if got = 0 then int tot else got))
       else do {
         v2 \<leftarrow> memcpy_in v1 (put_ptr v1) (rd_data r);
         let v3 = v2\<lparr>put_ptr := ptr_add (put_ptr v2) (nat got)\<rparr>;
         let tot1 = tot + nat got;
         if request1 > 0 then vio_fifo_read_loop v3 fd request1 tot1
         else Some (v3, int tot1)
       }
     }"

definition vio_fifo_read_nb :: "vio_fifo \<Rightarrow> rd list \<Rightarrow> nat \<Rightarrow> (vio_fifo \<times> int) option" where
  "vio_fifo_read_nb v fd request = vio_fifo_read_loop v fd request 0"

subsection \<open>Copying\<close>

partial_function (option) vio_fifo_copy_loop ::
  "vio_fifo \<Rightarrow> vio_fifo \<Rightarrow> lump \<Rightarrow> ptr \<Rightarrow> vio_fifo option" where
  "vio_fifo_copy_loop dst src src_lump src_ptr =
     do {
       let src_end = (if src_lump \<noteq> end_lump src then deref src (F_lump_end src_lump)
                      else deref src (p_end src));
       n \<leftarrow> ptr_diff src_end src_ptr;
       bs \<leftarrow> memcpy_out src src_ptr n;
       dst1 \<leftarrow> vio_fifo_put_bytes dst bs;
       if src_lump = end_lump src then Some dst1
       else do {
         nx \<leftarrow> ddl_next (base src) src_lump;
         vio_fifo_copy_loop dst1 src nx (Ptr nx 0)
       }
     }"

declare vio_fifo_copy_loop.simps [code]

definition vio_fifo_copy :: "vio_fifo option \<Rightarrow> vio_fifo \<Rightarrow> vio_fifo option" where
  "vio_fifo_copy dst src =
     (let d = (case dst of None \<Rightarrow> vio_fifo_new (size_lump src) | Some d \<Rightarrow> d)
      in vio_fifo_copy_loop d src (get_lump src) (get_ptr src))"

partial_function (option) vio_fifo_copy_tail_loop ::
  "vio_fifo \<Rightarrow> vio_fifo \<Rightarrow> lump \<Rightarrow> ptr \<Rightarrow> vio_fifo option" where
  "vio_fifo_copy_tail_loop dst src src_lump src_ptr =
     do {
       let tail = ddl_tail (base src);
       let src_end = (if Some src_lump \<noteq> tail then deref src (F_lump_end src_lump)
                      else put_ptr src);
       n \<leftarrow> ptr_diff src_end src_ptr;
       bs \<leftarrow> memcpy_out src src_ptr n;
       dst1 \<leftarrow> vio_fifo_put_bytes dst bs;
       if Some src_lump = tail then Some dst1
       else do {
         nx \<leftarrow> ddl_next (base src) src_lump;
         vio_fifo_copy_tail_loop dst1 src nx (Ptr nx 0)
       }
     }"

declare vio_fifo_copy_tail_loop.simps [code]

definition vio_fifo_copy_tail :: "vio_fifo option \<Rightarrow> vio_fifo \<Rightarrow> vio_fifo option" where
  "vio_fifo_copy_tail dst src =
     (let d = (case dst of None \<Rightarrow> vio_fifo_new (size_lump src) | Some d \<Rightarrow> d)
      in if \<not> vio_fifo_have_end_mark src then Some d
         else vio_fifo_copy_tail_loop d src (end_lump src) (end_ptr src))"

subsection \<open>End mark\<close>

definition vio_fifo_set_end_mark :: "vio_fifo \<Rightarrow> vio_fifo option" where
  "vio_fifo_set_end_mark v =
     (case ddl_tail (base v) of
        None \<Rightarrow> None
      | Some t \<Rightarrow>
          Some (vio_fifo_set_get_end (v\<lparr>p_end := F_end_ptr, end_ptr := put_ptr v, end_lump := t\<rparr>)))"

definition vio_fifo_step_end_mark :: "vio_fifo \<Rightarrow> vio_fifo option" where
  "vio_fifo_step_end_mark v =
     (if vio_fifo_have_end_mark v
      then (case ddl_tail (base v) of
              None \<Rightarrow> None
            | Some t \<Rightarrow> Some (vio_fifo_set_get_end (v\<lparr>end_ptr := put_ptr v, end_lump := t\<rparr>)))
      else Some v)"

definition vio_fifo_clear_end_mark :: "vio_fifo \<Rightarrow> vio_fifo option" where
  "vio_fifo_clear_end_mark v =
     (case ddl_tail (base v) of
        None \<Rightarrow> None
      | Some t \<Rightarrow> Some (vio_fifo_set_get_end (v\<lparr>p_end := F_put_ptr, end_lump := t\<rparr>)))"

text \<open>The \<open>do ... while\<close> of \<open>vio_fifo_back_to_end_mark\<close>: crop and release the tail
  until the end lump is the tail.\<close>

function vio_fifo_crop_loop :: "vio_fifo \<Rightarrow> vio_fifo option" where
  "vio_fifo_crop_loop v =
     (case ddl_crop (base v) of
        (lp, rest) \<Rightarrow>
          (case vio_fifo_release_lump (v\<lparr>base := rest\<rparr>) lp of
             None \<Rightarrow> None
           | Some v1 \<Rightarrow>
               if Some (end_lump v1) \<noteq> ddl_tail (base v1) then vio_fifo_crop_loop v1
               else Some v1))"
  by pat_completeness auto
termination
  by (relation "measure (\<lambda>v. length (base v))")
     (auto simp: ddl_crop_def vio_fifo_release_lump_def XFREE_def
           split: list.splits option.splits if_splits)

declare vio_fifo_crop_loop.simps [simp del]

definition vio_fifo_back_to_end_mark :: "vio_fifo \<Rightarrow> bool \<Rightarrow> vio_fifo option" where
  "vio_fifo_back_to_end_mark v keep =
     do {
       v3 \<leftarrow> (if deref v (p_end v) \<noteq> put_ptr v
              then do {
                v1 \<leftarrow> (if Some (end_lump v) \<noteq> ddl_tail (base v)
                       then map_option (\<lambda>w. w\<lparr>put_end := deref w (F_lump_end (end_lump w))\<rparr>)
                              (vio_fifo_crop_loop v)
                       else Some v);
                if deref v1 (p_start v1) = end_ptr v1 then vio_fifo_reset_ptrs v1
                else Some (v1\<lparr>put_ptr := end_ptr v1\<rparr>)
              }
              else Some v);
       Some (if \<not> keep then vio_fifo_set_get_end (v3\<lparr>p_end := F_put_ptr\<rparr>) else v3)
     }"

subsection \<open>Getting\<close>

text \<open>Modelled from the spec: \<open>vio_fifo_get\<close>, \<open>vio_fifo_get_ptr\<close> and \<open>vio_fifo_step\<close> are
  inline functions of vio_fifo.h, which is not among the sources.  By the spec the
  bytes to get in the current lump lie between \<open>get\<close> and the visible limit, and the
  advance-GET protocol (\<open>vio_fifo_sync_get\<close>) runs whenever \<open>get\<close> has reached that
  limit; the source calls \<open>vio_fifo_sync_get\<close> iff \<open>get_ptr >= *p_get_end\<close>.\<close>

definition vio_fifo_get :: "vio_fifo \<Rightarrow> nat option" where
  "vio_fifo_get v = ptr_diff (deref v (p_get_end v)) (get_ptr v)"

definition vio_fifo_get_ptr :: "vio_fifo \<Rightarrow> ptr" where
  "vio_fifo_get_ptr v = get_ptr v"

definition vio_fifo_step :: "vio_fifo \<Rightarrow> nat \<Rightarrow> vio_fifo option" where
  "vio_fifo_step v step =
     (let v1 = v\<lparr>get_ptr := ptr_add (get_ptr v) step\<rparr>
      in do {
        at_end \<leftarrow> ptr_ge (get_ptr v1) (deref v1 (p_get_end v1));
        if at_end then vio_fifo_sync_get v1 else Some v1
      })"

text \<open>The result is the new state and the bytes copied to \<open>dst\<close>; the C function
  returns their number.\<close>

function vio_fifo_get_bytes :: "vio_fifo \<Rightarrow> nat \<Rightarrow> (vio_fifo \<times> char list) option" where
  "vio_fifo_get_bytes v n =
     (if n > 0
      then (case ptr_diff (deref v (p_get_end v)) (get_ptr v) of
              None \<Rightarrow> None
            | Some have \<Rightarrow>
                if \<not> have > n \<and> have = 0 then Some (v, [])
                else
                  let tk = (if have > n then n else have)
                  in (case memcpy_out v (get_ptr v) tk of
                        None \<Rightarrow> None
                      | Some bs \<Rightarrow>
                          (case vio_fifo_step v tk of
                             None \<Rightarrow> None
                           | Some v1 \<Rightarrow>
                               map_option (\<lambda>(v2, rest). (v2, bs @ rest))
                                 (vio_fifo_get_bytes v1 (n - tk)))))
      else Some (v, []))"
  by pat_completeness auto
termination
  by (relation "measure (\<lambda>(v, n). n)") (auto split: if_splits)

declare vio_fifo_get_bytes.simps [simp del]

text \<open>Modelled from the spec: \<open>write_nb\<close> of network.c is not among the sources.  A sink
  is the list of what its next writes do: take up to so many of the bytes offered,
  or fail; \<open>write_nb\<close> returns the number taken or a negative number.  A sink with
  nothing more listed takes no bytes.\<close>

datatype wr = Wr_take nat | Wr_error

fun wr_done :: "wr \<Rightarrow> nat \<Rightarrow> int" where
  "wr_done (Wr_take k) have = int (min k have)"
| "wr_done Wr_error have = - 1"

text \<open>The result is the new state, the value returned and the bytes the sink took.\<close>

fun vio_fifo_write_loop ::
  "vio_fifo \<Rightarrow> wr list \<Rightarrow> bool \<Rightarrow> char list \<Rightarrow> (vio_fifo \<times> int \<times> char list) option" where
  "vio_fifo_write_loop v [] all out =
     (if get_lump v = end_lump v \<and> \<not> all then Some (v, 0, out)
      else do {
        have \<leftarrow> vio_fifo_get v;
        if have = 0 then Some (v, 0, out)
        else do {
          v1 \<leftarrow> vio_fifo_step v 0;
          Some (v1, 1, out)
        }
      })"
| "vio_fifo_write_loop v (w # fd) all out =
     (if get_lump v = end_lump v \<and> \<not> all then Some (v, 0, out)
      else do {
        have \<leftarrow> vio_fifo_get v;
        if have = 0 then Some (v, 0, out)
        else
          let done = wr_done w have
          in if done < 0 then Some (v, - 1, out)
             else do {
               bs \<leftarrow> memcpy_out v (vio_fifo_get_ptr v) (nat done);
               v1 \<leftarrow> vio_fifo_step v (nat done);
               if done < int have then Some (v1, 1, out @ bs)
               else vio_fifo_write_loop v1 fd all (out @ bs)
             }
      })"

definition vio_fifo_write_nb :: "vio_fifo \<Rightarrow> wr list \<Rightarrow> bool \<Rightarrow> (vio_fifo \<times> int \<times> char list) option" where
  "vio_fifo_write_nb v fd all = vio_fifo_write_loop v fd all []"

definition vio_fifo_skip_to_end :: "vio_fifo \<Rightarrow> vio_fifo option" where
  "vio_fifo_skip_to_end v =
     vio_fifo_sync_get (v\<lparr>get_lump := end_lump v, get_ptr := deref v (p_end v), p_get_end := p_end v\<rparr>)"

subsection \<open>Hold mark\<close>

definition vio_fifo_set_hold_mark :: "vio_fifo \<Rightarrow> vio_fifo option" where
  "vio_fifo_set_hold_mark v =
     do {
       v1 \<leftarrow> vio_fifo_release_upto v (get_lump v);
       v2 \<leftarrow> (if get_ptr v1 = put_ptr v1 then vio_fifo_reset_ptrs v1
              else Some (v1\<lparr>hold_ptr := get_ptr v1\<rparr>));
       Some (v2\<lparr>p_start := F_hold_ptr\<rparr>)
     }"

definition vio_fifo_clear_hold_mark :: "vio_fifo \<Rightarrow> vio_fifo option" where
  "vio_fifo_clear_hold_mark v =
     do {
       v1 \<leftarrow> vio_fifo_release_upto v (get_lump v);
       v2 \<leftarrow> (if get_ptr v1 = put_ptr v1 then vio_fifo_reset_ptrs v1 else Some v1);
       Some (v2\<lparr>p_start := F_get_ptr\<rparr>)
     }"

definition vio_fifo_back_to_hold_mark :: "vio_fifo \<Rightarrow> bool \<Rightarrow> vio_fifo option" where
  "vio_fifo_back_to_hold_mark v set_it =
     do {
       v1 \<leftarrow> (if vio_fifo_have_hold_mark v
              then map_option (\<lambda>h. vio_fifo_set_get_ptr v h (hold_ptr v)) (ddl_head (base v))
              else Some v);
       Some (v1\<lparr>p_start := (if set_it then F_hold_ptr else F_get_ptr)\<rparr>)
     }"

section \<open>Contents and invariant\<close>

text \<open>The bytes of a FIFO in list order, and the place of a pointer among them.\<close>

fun lump_pos :: "lump list \<Rightarrow> lump \<Rightarrow> nat" where
  "lump_pos [] l = 0"
| "lump_pos (x # xs) l = (if x = l then 0 else Suc (lump_pos xs l))"

fun off :: "lump list \<Rightarrow> nat \<Rightarrow> ptr \<Rightarrow> nat" where
  "off b s Null = 0"
| "off b s (Ptr l i) = lump_pos b l * s + i"

definition slice :: "lump list \<Rightarrow> nat \<Rightarrow> (lump \<Rightarrow> char list) \<Rightarrow> ptr \<Rightarrow> ptr \<Rightarrow> char list" where
  "slice b s m p q = take (off b s q - off b s p) (drop (off b s p) (concat (map m b)))"

definition offset_of :: "vio_fifo \<Rightarrow> ptr \<Rightarrow> nat" where
  "offset_of v p = off (base v) (size_lump v) p"

definition flat :: "vio_fifo \<Rightarrow> char list" where
  "flat v = concat (map (mem v) (base v))"

definition bytes_between :: "vio_fifo \<Rightarrow> ptr \<Rightarrow> ptr \<Rightarrow> char list" where
  "bytes_between v p q = slice (base v) (size_lump v) (mem v) p q"

text \<open>What is held behind \<open>get\<close> by a hold mark, what can be got, and what lies beyond
  the end mark.\<close>

definition held :: "vio_fifo \<Rightarrow> char list" where
  "held v = bytes_between v (deref v (p_start v)) (get_ptr v)"

definition visible :: "vio_fifo \<Rightarrow> char list" where
  "visible v = bytes_between v (get_ptr v) (deref v (p_end v))"

definition provisional :: "vio_fifo \<Rightarrow> char list" where
  "provisional v = bytes_between v (deref v (p_end v)) (put_ptr v)"

text \<open>The state that the comments of the source and \<open>vio_fifo_verify\<close> expect.\<close>

definition ptr_in :: "ptr \<Rightarrow> lump \<Rightarrow> nat \<Rightarrow> bool" where
  "ptr_in p l n = (case p of Null \<Rightarrow> False | Ptr m i \<Rightarrow> m = l \<and> i \<le> n)"

definition ptr_off :: "ptr \<Rightarrow> nat" where
  "ptr_off p = (case p of Null \<Rightarrow> 0 | Ptr m i \<Rightarrow> i)"

definition fifo_inv :: "vio_fifo \<Rightarrow> bool" where
  "fifo_inv v \<longleftrightarrow>
     0 < size_lump v \<and> size_lump v mod 128 = 0 \<and>
     base v \<noteq> [] \<and> distinct (base v) \<and>
     (\<forall>l \<in> set (base v). length (mem v l) = size_lump v \<and> l \<le> nalloc v) \<and>
     (case spare v of None \<Rightarrow> True
      | Some sp \<Rightarrow> sp \<notin> set (base v) \<and> length (mem v sp) = size_lump v \<and> sp \<le> nalloc v) \<and>
     (own_lump \<in> set (base v) \<or> spare v = Some own_lump) \<and>
     own_lump \<notin> set (freed v) \<and>
     ptr_in (put_ptr v) (last (base v)) (size_lump v) \<and>
     put_end v = Ptr (last (base v)) (size_lump v) \<and>
     get_lump v \<in> set (base v) \<and>
     ptr_in (get_ptr v) (get_lump v) (size_lump v) \<and>
     (get_lump v \<noteq> end_lump v \<longrightarrow> ptr_off (get_ptr v) < size_lump v) \<and>
     end_lump v \<in> set (base v) \<and>
     (p_end v = F_put_ptr \<and> end_lump v = last (base v) \<or>
      p_end v = F_end_ptr \<and> ptr_in (end_ptr v) (end_lump v) (size_lump v) \<and>
        (end_lump v \<noteq> last (base v) \<longrightarrow> ptr_off (end_ptr v) < size_lump v)) \<and>
     (p_start v = F_get_ptr \<and> get_lump v = hd (base v) \<or>
      p_start v = F_hold_ptr \<and> ptr_in (hold_ptr v) (hd (base v)) (size_lump v)) \<and>
     p_get_end v = (if get_lump v = end_lump v then p_end v else F_lump_end (get_lump v)) \<and>
     offset_of v (deref v (p_start v)) \<le> offset_of v (get_ptr v) \<and>
     offset_of v (get_ptr v) \<le> offset_of v (deref v (p_end v)) \<and>
     offset_of v (deref v (p_end v)) \<le> offset_of v (put_ptr v) \<and>
     (deref v (p_start v) = put_ptr v \<longrightarrow> ptr_off (put_ptr v) = 0)"

section \<open>Definitions for the proofs\<close>

definition add_lump_res :: "vio_fifo \<Rightarrow> vio_fifo" where
  "add_lump_res v =
    (let l = (case spare v of Some sp \<Rightarrow> sp | None \<Rightarrow> Suc (nalloc v));
         gm = (get_ptr v = put_ptr v);
         em = (put_ptr v = deref v (p_end v))
     in vio_fifo_set_get_end
         (v\<lparr>spare := None,
           nalloc := (case spare v of Some sp \<Rightarrow> nalloc v | None \<Rightarrow> Suc (nalloc v)),
           mem := (case spare v of Some sp \<Rightarrow> mem v
                   | None \<Rightarrow> (mem v)(Suc (nalloc v) := replicate (size_lump v) (CHR 0x00))),
           base := base v @ [l],
           get_lump := (if gm then l else get_lump v),
           get_ptr := (if gm then Ptr l 0 else get_ptr v),
           end_lump := (if em then l else end_lump v),
           end_ptr := (if em then Ptr l 0 else end_ptr v),
           put_ptr := Ptr l 0,
           put_end := Ptr l (size_lump v)\<rparr>))"

definition new_lump :: "vio_fifo \<Rightarrow> lump" where
  "new_lump v = (case spare v of Some sp \<Rightarrow> sp | None \<Rightarrow> Suc (nalloc v))"

definition put_chunk_res :: "vio_fifo \<Rightarrow> char list \<Rightarrow> vio_fifo" where
  "put_chunk_res v bs =
     (case put_ptr v of Null \<Rightarrow> v
      | Ptr t i \<Rightarrow>
          v\<lparr>mem := (mem v)(t := take i (mem v t) @ bs @ drop (i + length bs) (mem v t)),
            put_ptr := Ptr t (i + length bs)\<rparr>)"

definition put_post :: "vio_fifo \<Rightarrow> char list \<Rightarrow> vio_fifo \<Rightarrow> bool" where
  "put_post v bs v' \<longleftrightarrow>
     fifo_inv v' \<and> p_start v' = p_start v \<and> p_end v' = p_end v \<and>
     size_lump v' = size_lump v \<and> held v' = held v \<and>
     visible v' = (if p_end v = F_put_ptr then visible v @ bs else visible v) \<and>
     provisional v' = (if p_end v = F_put_ptr then [] else provisional v @ bs)"

definition get_adv :: "vio_fifo \<Rightarrow> nat \<Rightarrow> vio_fifo" where
  "get_adv v k = v\<lparr>get_ptr := ptr_add (get_ptr v) k\<rparr>"

definition get_post :: "vio_fifo \<Rightarrow> nat \<Rightarrow> vio_fifo \<Rightarrow> bool" where
  "get_post v k v' \<longleftrightarrow>
     fifo_inv v' \<and> p_start v' = p_start v \<and> p_end v' = p_end v \<and>
     size_lump v' = size_lump v \<and>
     visible v' = drop k (visible v) \<and> provisional v' = provisional v \<and>
     held v' = (if p_start v = F_hold_ptr then held v @ take k (visible v) else [])"

definition next_res :: "vio_fifo \<Rightarrow> lump \<Rightarrow> vio_fifo" where
  "next_res v nx =
     v\<lparr>get_lump := nx, get_ptr := Ptr nx 0,
       p_get_end := (if nx = end_lump v then p_end v else F_lump_end nx)\<rparr>"

definition release_res :: "vio_fifo \<Rightarrow> lump \<Rightarrow> vio_fifo" where
  "release_res v l =
     (case spare v of
        None \<Rightarrow> v\<lparr>spare := Some l\<rparr>
      | Some sp \<Rightarrow> if l = own_lump then XFREE (v\<lparr>spare := Some own_lump\<rparr>) sp else XFREE v l)"

definition pop_res :: "vio_fifo \<Rightarrow> lump \<Rightarrow> vio_fifo" where
  "pop_res v nx = release_res ((next_res v nx)\<lparr>base := tl (base v)\<rparr>) (hd (base v))"




definition mark_res :: "vio_fifo \<Rightarrow> field \<Rightarrow> ptr \<Rightarrow> vio_fifo" where
  "mark_res v pe ep =
     vio_fifo_set_get_end (v\<lparr>p_end := pe, end_ptr := ep, end_lump := last (base v)\<rparr>)"

definition mark_post :: "vio_fifo \<Rightarrow> field \<Rightarrow> vio_fifo \<Rightarrow> bool" where
  "mark_post v pe v' \<longleftrightarrow>
     fifo_inv v' \<and> p_start v' = p_start v \<and> p_end v' = pe \<and> size_lump v' = size_lump v \<and>
     held v' = held v \<and> visible v' = visible v @ provisional v \<and> provisional v' = []"

text \<open>The lumps a FIFO holds outside its list: the spare, if there is one.\<close>

definition spare_list :: "vio_fifo \<Rightarrow> lump list" where
  "spare_list v = (case spare v of None \<Rightarrow> [] | Some sp \<Rightarrow> [sp])"

text \<open>Where the lumps are.  Every lump that exists (\<open>own_lump\<close> and the lumps from
  \<open>XMALLOC\<close>) is in exactly one place: in the list, the spare, or given to \<open>XFREE\<close> (once);
  \<open>own_lump\<close> has not been given to \<open>XFREE\<close>.\<close>

definition spare_inv :: "vio_fifo \<Rightarrow> bool" where
  "spare_inv v \<longleftrightarrow>
     distinct (base v @ spare_list v @ freed v) \<and>
     set (base v @ spare_list v @ freed v) = {..nalloc v} \<and>
     own_lump \<notin> set (freed v)"

text \<open>The visible end for GET: it is \<open>p_end\<close> (the end mark, or \<open>put_ptr\<close> when there is no
  end mark) when GET is in the end lump, and the end of GET's lump otherwise.\<close>

definition get_end_inv :: "vio_fifo \<Rightarrow> bool" where
  "get_end_inv v \<longleftrightarrow>
     p_get_end v = (if get_lump v = end_lump v then p_end v else F_lump_end (get_lump v)) \<and>
     (p_end v = F_put_ptr \<or> p_end v = F_end_ptr)"

definition reach_inv :: "vio_fifo \<Rightarrow> bool" where
  "reach_inv v \<longleftrightarrow> spare_inv v \<and> get_end_inv v"

text \<open>The states of a FIFO: what \<open>vio_fifo_new\<close> makes, and what a call that returns
  of any function of vio_fifo.c makes of a state.  \<open>vio_fifo_add_lump\<close>, \<open>vio_fifo_step\<close>
  and a write at \<open>put_ptr\<close> are steps of their own: they are all that \<open>vio_fifo_vprintf\<close>,
  \<open>vio_fifo_fwrite\<close> and the put and get macros of vio_fifo.h do to a FIFO.  The source
  FIFO of a copy may be in any state.\<close>

inductive fifo_reach :: "vio_fifo \<Rightarrow> bool" where
  reach_new: "fifo_reach (vio_fifo_new sz)"
| reach_clear: "fifo_reach v \<Longrightarrow> vio_fifo_clear v clear_marks = Some v' \<Longrightarrow> fifo_reach v'"
| reach_add_lump: "fifo_reach v \<Longrightarrow> vio_fifo_add_lump v = Some v' \<Longrightarrow> fifo_reach v'"
| reach_write_at_put: "fifo_reach v \<Longrightarrow> fifo_reach (v\<lparr>mem := m, put_ptr := p\<rparr>)"
| reach_put_bytes: "fifo_reach v \<Longrightarrow> vio_fifo_put_bytes v src = Some v' \<Longrightarrow> fifo_reach v'"
| reach_read_nb: "fifo_reach v \<Longrightarrow> vio_fifo_read_nb v fd request = Some (v', r) \<Longrightarrow> fifo_reach v'"
| reach_copy: "fifo_reach d \<Longrightarrow> vio_fifo_copy (Some d) src = Some d' \<Longrightarrow> fifo_reach d'"
| reach_copy_new: "vio_fifo_copy None src = Some d' \<Longrightarrow> fifo_reach d'"
| reach_copy_tail: "fifo_reach d \<Longrightarrow> vio_fifo_copy_tail (Some d) src = Some d' \<Longrightarrow> fifo_reach d'"
| reach_copy_tail_new: "vio_fifo_copy_tail None src = Some d' \<Longrightarrow> fifo_reach d'"
| reach_set_end_mark: "fifo_reach v \<Longrightarrow> vio_fifo_set_end_mark v = Some v' \<Longrightarrow> fifo_reach v'"
| reach_step_end_mark: "fifo_reach v \<Longrightarrow> vio_fifo_step_end_mark v = Some v' \<Longrightarrow> fifo_reach v'"
| reach_clear_end_mark: "fifo_reach v \<Longrightarrow> vio_fifo_clear_end_mark v = Some v' \<Longrightarrow> fifo_reach v'"
| reach_back_to_end_mark:
    "fifo_reach v \<Longrightarrow> vio_fifo_back_to_end_mark v keep = Some v' \<Longrightarrow> fifo_reach v'"
| reach_step: "fifo_reach v \<Longrightarrow> vio_fifo_step v n = Some v' \<Longrightarrow> fifo_reach v'"
| reach_get_bytes: "fifo_reach v \<Longrightarrow> vio_fifo_get_bytes v n = Some (v', bs) \<Longrightarrow> fifo_reach v'"
| reach_write_nb:
    "fifo_reach v \<Longrightarrow> vio_fifo_write_nb v wd all = Some (v', r, out) \<Longrightarrow> fifo_reach v'"
| reach_skip_to_end: "fifo_reach v \<Longrightarrow> vio_fifo_skip_to_end v = Some v' \<Longrightarrow> fifo_reach v'"
| reach_set_hold_mark: "fifo_reach v \<Longrightarrow> vio_fifo_set_hold_mark v = Some v' \<Longrightarrow> fifo_reach v'"
| reach_clear_hold_mark:
    "fifo_reach v \<Longrightarrow> vio_fifo_clear_hold_mark v = Some v' \<Longrightarrow> fifo_reach v'"
| reach_back_to_hold_mark:
    "fifo_reach v \<Longrightarrow> vio_fifo_back_to_hold_mark v set_it = Some v' \<Longrightarrow> fifo_reach v'"

text \<open>A run that leaves GET in the lump of the end mark: put 130 bytes (two lumps), set
  the end mark, put XYZ, get 128 bytes.\<close>

definition end_mark_state :: "vio_fifo option" where
  "end_mark_state =
     do { v1 \<leftarrow> vio_fifo_put_bytes (vio_fifo_new 128) (replicate 130 CHR ''a'');
          v2 \<leftarrow> vio_fifo_set_end_mark v1;
          v3 \<leftarrow> vio_fifo_put_bytes v2 ''XYZ'';
          (v4, _) \<leftarrow> vio_fifo_get_bytes v3 128;
          Some v4 }"

text \<open>A run that ends with \<open>own_lump\<close> at the head of a list of two lumps, GET in the
  second lump behind a hold mark, a spare held and the last lump full: put 300 bytes
  (three lumps), get 256 (\<open>own_lump\<close> becomes the spare, lump 1 is freed), put 340 (the
  spare \<open>own_lump\<close> is used again, lump 3 is allocated and filled), get 128 (lump 2
  becomes the spare), set the hold mark, get 128.\<close>

definition spare_scenario :: "vio_fifo option" where
  "spare_scenario =
     do { v1 \<leftarrow> vio_fifo_put_bytes (vio_fifo_new 128) (replicate 300 CHR ''a'');
          (v2, _) \<leftarrow> vio_fifo_get_bytes v1 256;
          v3 \<leftarrow> vio_fifo_put_bytes v2 (replicate 340 CHR ''b'');
          (v4, _) \<leftarrow> vio_fifo_get_bytes v3 128;
          v5 \<leftarrow> vio_fifo_set_hold_mark v4;
          (v6, _) \<leftarrow> vio_fifo_get_bytes v5 128;
          Some v6 }"




section \<open>Lemmas and claims\<close>

lemma lump_pos_append: "l \<in> set b \<Longrightarrow> lump_pos (b @ c) l = lump_pos b l"
  by (induction b) auto

lemma lump_pos_append_new: "l \<notin> set b \<Longrightarrow> lump_pos (b @ [l]) l = length b"
  by (induction b) auto

lemma lump_pos_less: "l \<in> set b \<Longrightarrow> lump_pos b l < length b"
  by (induction b) auto

lemma lump_pos_last: "distinct b \<Longrightarrow> b \<noteq> [] \<Longrightarrow> lump_pos b (last b) = length b - 1"
  by (induction b) auto

lemma lump_pos_hd: "b \<noteq> [] \<Longrightarrow> lump_pos b (hd b) = 0"
  by (cases b) auto

lemma lump_pos_nth: "distinct b \<Longrightarrow> i < length b \<Longrightarrow> lump_pos b (b ! i) = i"
  by (induction b arbitrary: i) (auto simp: nth_Cons split: nat.splits)

lemma nth_lump_pos: "l \<in> set b \<Longrightarrow> b ! lump_pos b l = l"
  by (induction b) auto

lemma length_flat: "\<forall>l\<in>set b. length (m l) = s \<Longrightarrow> length (concat (map m b)) = length b * s"
  by (induction b) auto

lemma slice_alt: "slice b s m p q = drop (off b s p) (take (off b s q) (concat (map m b)))"
  by (simp add: slice_def drop_take)

lemma slice_eqI:
  assumes "off b' s' p' = off b s p" "off b' s' q' = off b s q"
    and "take (off b s q) (concat (map m' b')) = take (off b s q) (concat (map m b))"
  shows "slice b' s' m' p' q' = slice b s m p q"
  using assms by (simp add: slice_alt)

lemma slice_shiftI:
  assumes "off b s p = k + off b' s' p'" "off b s q = k + off b' s' q'"
    and "drop k (concat (map m b)) = concat (map m' b')"
  shows "slice b s m p q = slice b' s' m' p' q'"
proof -
  have "drop (k + off b' s' p') (concat (map m b)) = drop (off b' s' p') (concat (map m' b'))"
    using assms(3) by (metis add.commute drop_drop)
  then show ?thesis using assms(1,2) by (simp add: slice_def)
qed

lemma ptr_inD: "ptr_in p l n \<Longrightarrow> \<exists>i. p = Ptr l i \<and> i \<le> n"
  by (cases p) (auto simp: ptr_in_def)

lemma fifo_inv_put:
  assumes "fifo_inv v"
  obtains pi where "put_ptr v = Ptr (last (base v)) pi" "pi \<le> size_lump v"
  using assms by (auto simp: fifo_inv_def dest!: ptr_inD)

lemma fifo_inv_get:
  assumes "fifo_inv v"
  obtains gi where "get_ptr v = Ptr (get_lump v) gi" "gi \<le> size_lump v"
    "get_lump v \<noteq> end_lump v \<longrightarrow> gi < size_lump v"
  using assms by (auto simp: fifo_inv_def ptr_off_def dest!: ptr_inD)

lemma off_le_flat:
  assumes "l \<in> set b" "i \<le> s"
  shows "off b s (Ptr l i) \<le> length b * s"
proof -
  have "lump_pos b l < length b" using assms(1) by (rule lump_pos_less)
  then have "Suc (lump_pos b l) \<le> length b" by simp
  then have "Suc (lump_pos b l) * s \<le> length b * s" by (rule mult_le_mono1)
  then show ?thesis using assms(2) by simp
qed

lemma off_last:
  assumes "distinct b" "b \<noteq> []"
  shows "off b s (Ptr (last b) s) = length b * s"
proof -
  have "lump_pos b (last b) = length b - 1" using assms by (rule lump_pos_last)
  moreover have "0 < length b" using assms(2) by simp
  ultimately have "Suc (lump_pos b (last b)) = length b" by simp
  then have "Suc (lump_pos b (last b)) * s = length b * s" by simp
  then show ?thesis by simp
qed

lemma off_append_old: "l \<in> set b \<Longrightarrow> off (b @ c) s (Ptr l i) = off b s (Ptr l i)"
  by (simp add: lump_pos_append)

lemma off_append_new: "l \<notin> set b \<Longrightarrow> off (b @ [l]) s (Ptr l 0) = length b * s"
  by (simp add: lump_pos_append_new)

lemma concat_map_cong_set: "(\<And>x. x \<in> set b \<Longrightarrow> m' x = m x) \<Longrightarrow> concat (map m' b) = concat (map m b)"
  by (induction b) auto

lemma add_lump_eq:
  assumes "put_ptr v = put_end v" "put_ptr v \<noteq> deref v (p_start v)"
    and "p_end v = F_put_ptr \<or> p_end v = F_end_ptr"
  shows "vio_fifo_add_lump v = Some (add_lump_res v)"
proof (cases "spare v")
  case None
  show ?thesis
    using assms(3)
  proof
    assume "p_end v = F_put_ptr"
    then show ?thesis
      using assms(1,2) unfolding vio_fifo_add_lump_def add_lump_res_def
      by (simp add: None XMALLOC_def ddl_append_def Let_def)
  next
    assume "p_end v = F_end_ptr"
    then show ?thesis
      using assms(1,2) unfolding vio_fifo_add_lump_def add_lump_res_def
      by (simp add: None XMALLOC_def ddl_append_def Let_def)
  qed
next
  case (Some sp)
  show ?thesis
    using assms(3)
  proof
    assume "p_end v = F_put_ptr"
    then show ?thesis
      using assms(1,2) unfolding vio_fifo_add_lump_def add_lump_res_def
      by (simp add: Some ddl_append_def Let_def)
  next
    assume "p_end v = F_end_ptr"
    then show ?thesis
      using assms(1,2) unfolding vio_fifo_add_lump_def add_lump_res_def
      by (simp add: Some ddl_append_def Let_def)
  qed
qed

lemma add_lump_res_fields:
  "base (add_lump_res v) = base v @ [new_lump v]"
  "size_lump (add_lump_res v) = size_lump v"
  "p_start (add_lump_res v) = p_start v"
  "p_end (add_lump_res v) = p_end v"
  "hold_ptr (add_lump_res v) = hold_ptr v"
  "put_ptr (add_lump_res v) = Ptr (new_lump v) 0"
  "put_end (add_lump_res v) = Ptr (new_lump v) (size_lump v)"
  "spare (add_lump_res v) = None"
  "freed (add_lump_res v) = freed v"
  "nalloc (add_lump_res v) = (case spare v of Some sp \<Rightarrow> nalloc v | None \<Rightarrow> Suc (nalloc v))"
  "mem (add_lump_res v) = (case spare v of Some sp \<Rightarrow> mem v
                   | None \<Rightarrow> (mem v)(Suc (nalloc v) := replicate (size_lump v) (CHR 0x00)))"
  "get_lump (add_lump_res v) = (if get_ptr v = put_ptr v then new_lump v else get_lump v)"
  "get_ptr (add_lump_res v) = (if get_ptr v = put_ptr v then Ptr (new_lump v) 0 else get_ptr v)"
  "end_lump (add_lump_res v) = (if put_ptr v = deref v (p_end v) then new_lump v else end_lump v)"
  "end_ptr (add_lump_res v) = (if put_ptr v = deref v (p_end v) then Ptr (new_lump v) 0 else end_ptr v)"
  "p_get_end (add_lump_res v) =
     (if get_lump (add_lump_res v) = end_lump (add_lump_res v) then p_end v
      else F_lump_end (get_lump (add_lump_res v)))"
  by (simp_all add: add_lump_res_def new_lump_def Let_def vio_fifo_set_get_end_def)

lemma fifo_inv_new_lump:
  assumes "fifo_inv v"
  shows "new_lump v \<notin> set (base v)"
  using assms
  by (cases "spare v") (auto simp: fifo_inv_def new_lump_def)

lemma add_lump_offsets:
  assumes inv: "fifo_inv v" and full: "put_ptr v = put_end v"
    and f: "f = p_start v \<or> f = F_get_ptr \<or> f = p_end v \<or> f = F_put_ptr"
  shows "offset_of (add_lump_res v) (deref (add_lump_res v) f) = offset_of v (deref v f)"
proof -
  let ?b = "base v" and ?s = "size_lump v" and ?l = "new_lump v"
  have l: "?l \<notin> set ?b" using inv by (rule fifo_inv_new_lump)
  have b: "distinct ?b" "?b \<noteq> []" using inv by (auto simp: fifo_inv_def)
  have put: "put_ptr v = Ptr (last ?b) ?s" using inv full by (simp add: fifo_inv_def)
  have new: "off (?b @ [?l]) ?s (Ptr ?l 0) = off ?b ?s (Ptr (last ?b) ?s)"
    using l b by (simp add: off_append_new off_last del: off.simps)
  have old: "\<And>x i. x \<in> set ?b \<Longrightarrow> off (?b @ [?l]) ?s (Ptr x i) = off ?b ?s (Ptr x i)"
    by (rule off_append_old)
  have g: "offset_of (add_lump_res v) (get_ptr (add_lump_res v)) = offset_of v (get_ptr v)"
  proof (cases "get_ptr v = put_ptr v")
    case True
    then show ?thesis using new put by (simp add: offset_of_def add_lump_res_fields)
  next
    case False
    obtain gi where "get_ptr v = Ptr (get_lump v) gi" using inv by (rule fifo_inv_get)
    moreover have "get_lump v \<in> set ?b" using inv by (simp add: fifo_inv_def)
    ultimately show ?thesis using False old by (simp add: offset_of_def add_lump_res_fields)
  qed
  have p: "offset_of (add_lump_res v) (put_ptr (add_lump_res v)) = offset_of v (put_ptr v)"
    using new put by (simp add: offset_of_def add_lump_res_fields)
  have e: "p_end v = F_end_ptr \<Longrightarrow>
     offset_of (add_lump_res v) (end_ptr (add_lump_res v)) = offset_of v (end_ptr v)"
  proof -
    assume pe: "p_end v = F_end_ptr"
    show ?thesis
    proof (cases "put_ptr v = end_ptr v")
      case True
      then show ?thesis using new put pe by (simp add: offset_of_def add_lump_res_fields)
    next
      case False
      have "ptr_in (end_ptr v) (end_lump v) ?s" "end_lump v \<in> set ?b"
        using inv pe by (auto simp: fifo_inv_def)
      then show ?thesis using False old pe
        by (auto simp: offset_of_def add_lump_res_fields dest!: ptr_inD)
    qed
  qed
  have h: "p_start v = F_hold_ptr \<Longrightarrow>
     offset_of (add_lump_res v) (hold_ptr (add_lump_res v)) = offset_of v (hold_ptr v)"
  proof -
    assume ps: "p_start v = F_hold_ptr"
    have "ptr_in (hold_ptr v) (hd ?b) ?s" using inv ps by (auto simp: fifo_inv_def)
    moreover have "hd ?b \<in> set ?b" using b by simp
    ultimately show ?thesis using old
      by (auto simp: offset_of_def add_lump_res_fields dest!: ptr_inD)
  qed
  have pe: "p_end v = F_put_ptr \<or> p_end v = F_end_ptr"
    and ps: "p_start v = F_get_ptr \<or> p_start v = F_hold_ptr"
    using inv by (auto simp: fifo_inv_def)
  show ?thesis
    using f pe ps g p e h by auto
qed

lemma fifo_inv_length_flat:
  assumes "fifo_inv v"
  shows "length (flat v) = length (base v) * size_lump v"
  using assms by (simp add: flat_def fifo_inv_def length_flat)

lemma fifo_inv_offset_le:
  assumes inv: "fifo_inv v"
    and f: "f = p_start v \<or> f = F_get_ptr \<or> f = p_end v \<or> f = F_put_ptr"
  shows "offset_of v (deref v f) \<le> offset_of v (put_ptr v)"
    and "offset_of v (deref v f) \<le> length (flat v)"
proof -
  have o: "offset_of v (deref v (p_start v)) \<le> offset_of v (get_ptr v)"
    "offset_of v (get_ptr v) \<le> offset_of v (deref v (p_end v))"
    "offset_of v (deref v (p_end v)) \<le> offset_of v (put_ptr v)"
    using inv by (simp_all add: fifo_inv_def)
  show le: "offset_of v (deref v f) \<le> offset_of v (put_ptr v)"
    using f o by auto
  obtain pi where p: "put_ptr v = Ptr (last (base v)) pi" "pi \<le> size_lump v"
    using inv by (rule fifo_inv_put)
  have "last (base v) \<in> set (base v)" using inv by (simp add: fifo_inv_def)
  then have "off (base v) (size_lump v) (Ptr (last (base v)) pi) \<le> length (base v) * size_lump v"
    using p(2) by (rule off_le_flat)
  then have "offset_of v (put_ptr v) \<le> length (flat v)"
    using p(1) inv by (simp add: offset_of_def fifo_inv_length_flat)
  then show "offset_of v (deref v f) \<le> length (flat v)"
    using le by simp
qed

lemma add_lump_flat:
  assumes inv: "fifo_inv v"
  shows "flat (add_lump_res v) = flat v @ mem (add_lump_res v) (new_lump v)"
proof -
  have "\<And>x. x \<in> set (base v) \<Longrightarrow> mem (add_lump_res v) x = mem v x"
    using inv by (cases "spare v") (auto simp: add_lump_res_fields fifo_inv_def)
  then have "concat (map (mem (add_lump_res v)) (base v)) = concat (map (mem v) (base v))"
    by (rule concat_map_cong_set)
  then show ?thesis
    by (simp add: flat_def add_lump_res_fields(1))
qed

lemma add_lump_between:
  assumes inv: "fifo_inv v" and full: "put_ptr v = put_end v"
    and f: "f = p_start v \<or> f = F_get_ptr \<or> f = p_end v \<or> f = F_put_ptr"
    and g: "g = p_start v \<or> g = F_get_ptr \<or> g = p_end v \<or> g = F_put_ptr"
  shows "bytes_between (add_lump_res v) (deref (add_lump_res v) f) (deref (add_lump_res v) g)
         = bytes_between v (deref v f) (deref v g)"
proof -
  have "offset_of v (deref v g) \<le> length (flat v)"
    using inv g by (rule fifo_inv_offset_le)
  then have "take (offset_of v (deref v g)) (flat (add_lump_res v)) = take (offset_of v (deref v g)) (flat v)"
    using inv by (simp add: add_lump_flat)
  moreover have "offset_of (add_lump_res v) (deref (add_lump_res v) f) = offset_of v (deref v f)"
    using inv full f by (rule add_lump_offsets)
  moreover have "offset_of (add_lump_res v) (deref (add_lump_res v) g) = offset_of v (deref v g)"
    using inv full g by (rule add_lump_offsets)
  ultimately show ?thesis
    unfolding bytes_between_def offset_of_def flat_def
    by (intro slice_eqI) simp_all
qed

lemma add_lump_views:
  assumes inv: "fifo_inv v" and full: "put_ptr v = put_end v"
  shows "held (add_lump_res v) = held v"
    and "visible (add_lump_res v) = visible v"
    and "provisional (add_lump_res v) = provisional v"
  using add_lump_between [OF inv full, of "p_start v" F_get_ptr]
    add_lump_between [OF inv full, of F_get_ptr "p_end v"]
    add_lump_between [OF inv full, of "p_end v" F_put_ptr]
  by (simp_all add: held_def visible_def provisional_def add_lump_res_fields(3,4))

lemma add_lump_inv:
  assumes inv: "fifo_inv v" and full: "put_ptr v = put_end v"
  shows "fifo_inv (add_lump_res v)"
proof -
  let ?v = "add_lump_res v"
  let ?b = "base v" and ?s = "size_lump v" and ?l = "new_lump v"
  note F = add_lump_res_fields
  have l: "?l \<notin> set ?b" using inv by (rule fifo_inv_new_lump)
  have b: "distinct ?b" "?b \<noteq> []" using inv by (auto simp: fifo_inv_def)
  have put: "put_ptr v = Ptr (last ?b) ?s" using inv full by (simp add: fifo_inv_def)
  have s: "0 < ?s" using inv by (simp add: fifo_inv_def)
  have pe: "p_end v = F_put_ptr \<or> p_end v = F_end_ptr"
    and ps: "p_start v = F_get_ptr \<or> p_start v = F_hold_ptr"
    using inv by (auto simp: fifo_inv_def)
  obtain gi where g: "get_ptr v = Ptr (get_lump v) gi" "gi \<le> ?s"
    "get_lump v \<noteq> end_lump v \<longrightarrow> gi < ?s"
    using inv by (rule fifo_inv_get)
  have gl: "get_lump v \<in> set ?b" and el: "end_lump v \<in> set ?b"
    using inv by (simp_all add: fifo_inv_def)
  have nonempty: "deref v (p_start v) \<noteq> put_ptr v"
    using inv put s by (auto simp: fifo_inv_def ptr_off_def)
  have c1: "0 < size_lump ?v \<and> size_lump ?v mod 128 = 0"
    using inv by (simp add: F fifo_inv_def)
  have c2: "base ?v \<noteq> [] \<and> distinct (base ?v)"
    using l b by (simp add: F)
  have c3: "\<forall>x \<in> set (base ?v). length (mem ?v x) = size_lump ?v \<and> x \<le> nalloc ?v"
    using inv by (cases "spare v") (auto simp: F fifo_inv_def new_lump_def)
  have c4: "(case spare ?v of None \<Rightarrow> True
      | Some sp \<Rightarrow> sp \<notin> set (base ?v) \<and> length (mem ?v sp) = size_lump ?v \<and> sp \<le> nalloc ?v)"
    by (simp add: F)
  have c5: "own_lump \<in> set (base ?v) \<or> spare ?v = Some own_lump"
    using inv by (auto simp: F fifo_inv_def new_lump_def)
  have c6: "own_lump \<notin> set (freed ?v)"
    using inv by (simp add: F fifo_inv_def)
  have c7: "ptr_in (put_ptr ?v) (last (base ?v)) (size_lump ?v)"
    by (simp add: F ptr_in_def)
  have c8: "put_end ?v = Ptr (last (base ?v)) (size_lump ?v)"
    by (simp add: F)
  have c9: "get_lump ?v \<in> set (base ?v)"
    using gl by (simp add: F)
  have c10: "ptr_in (get_ptr ?v) (get_lump ?v) (size_lump ?v)"
    using g by (simp add: F ptr_in_def)
  have c12: "end_lump ?v \<in> set (base ?v)"
    using el by (simp add: F)
  have c13: "p_end ?v = F_put_ptr \<and> end_lump ?v = last (base ?v) \<or>
      p_end ?v = F_end_ptr \<and> ptr_in (end_ptr ?v) (end_lump ?v) (size_lump ?v) \<and>
        (end_lump ?v \<noteq> last (base ?v) \<longrightarrow> ptr_off (end_ptr ?v) < size_lump ?v)"
    using pe
  proof
    assume "p_end v = F_put_ptr"
    then show ?thesis by (simp add: F)
  next
    assume e: "p_end v = F_end_ptr"
    then have "ptr_in (end_ptr v) (end_lump v) ?s"
      "end_lump v \<noteq> last ?b \<longrightarrow> ptr_off (end_ptr v) < ?s"
      using inv by (auto simp: fifo_inv_def)
    then show ?thesis using e put s
      by (auto simp: F ptr_in_def ptr_off_def split: ptr.splits)
  qed
  have c11: "get_lump ?v \<noteq> end_lump ?v \<longrightarrow> ptr_off (get_ptr ?v) < size_lump ?v"
  proof (cases "get_ptr v = put_ptr v")
    case True
    then show ?thesis using s by (simp add: F ptr_off_def)
  next
    case False
    have "gi < ?s" if ne: "get_lump v \<noteq> end_lump ?v"
    proof (rule ccontr)
      assume "\<not> gi < ?s"
      then have gi: "gi = ?s" using g(2) by simp
      then have same: "get_lump v = end_lump v" using g(3) by auto
      then have moved: "put_ptr v = deref v (p_end v)" using ne by (auto simp: F split: if_splits)
      have "end_lump v = last ?b"
        using pe
      proof
        assume "p_end v = F_put_ptr"
        then show ?thesis using inv by (auto simp: fifo_inv_def)
      next
        assume e: "p_end v = F_end_ptr"
        then have "ptr_in (end_ptr v) (end_lump v) ?s" using inv by (auto simp: fifo_inv_def)
        then show ?thesis using moved e put by (auto dest!: ptr_inD)
      qed
      then show False using False g(1) gi same put by simp
    qed
    then show ?thesis using False g(1) by (simp add: F ptr_off_def)
  qed
  have c14: "p_start ?v = F_get_ptr \<and> get_lump ?v = hd (base ?v) \<or>
      p_start ?v = F_hold_ptr \<and> ptr_in (hold_ptr ?v) (hd (base ?v)) (size_lump ?v)"
    using ps
  proof
    assume a: "p_start v = F_get_ptr"
    then have "get_lump v = hd ?b" using inv by (auto simp: fifo_inv_def)
    then show ?thesis using a nonempty b by (simp add: F)
  next
    assume a: "p_start v = F_hold_ptr"
    then have "ptr_in (hold_ptr v) (hd ?b) ?s" using inv by (auto simp: fifo_inv_def)
    then show ?thesis using a b by (simp add: F)
  qed
  have c15: "p_get_end ?v = (if get_lump ?v = end_lump ?v then p_end ?v else F_lump_end (get_lump ?v))"
    by (simp add: F)
  have o: "offset_of v (deref v (p_start v)) \<le> offset_of v (get_ptr v)"
    "offset_of v (get_ptr v) \<le> offset_of v (deref v (p_end v))"
    "offset_of v (deref v (p_end v)) \<le> offset_of v (put_ptr v)"
    using inv by (simp_all add: fifo_inv_def)
  have O: "offset_of ?v (deref ?v (p_start v)) = offset_of v (deref v (p_start v))"
    "offset_of ?v (deref ?v F_get_ptr) = offset_of v (deref v F_get_ptr)"
    "offset_of ?v (deref ?v (p_end v)) = offset_of v (deref v (p_end v))"
    "offset_of ?v (deref ?v F_put_ptr) = offset_of v (deref v F_put_ptr)"
    by (rule add_lump_offsets [OF inv full], simp)+
  have c16: "offset_of ?v (deref ?v (p_start ?v)) \<le> offset_of ?v (get_ptr ?v)"
    using o(1) O(1,2) by (simp add: F(3))
  have c17: "offset_of ?v (get_ptr ?v) \<le> offset_of ?v (deref ?v (p_end ?v))"
    using o(2) O(2,3) by (simp add: F(4))
  have c18: "offset_of ?v (deref ?v (p_end ?v)) \<le> offset_of ?v (put_ptr ?v)"
    using o(3) O(3,4) by (simp add: F(4))
  have c19: "deref ?v (p_start ?v) = put_ptr ?v \<longrightarrow> ptr_off (put_ptr ?v) = 0"
    by (simp add: F ptr_off_def)
  show ?thesis
    unfolding fifo_inv_def
    using c1 c2 c3 c4 c5 c6 c7 c8 c9 c10 c11 c12 c13 c14 c15 c16 c17 c18 c19
    by blast
qed

lemma ptr_in_simps [simp]:
  "ptr_in (Ptr m i) l n \<longleftrightarrow> m = l \<and> i \<le> n"
  "ptr_in Null l n = False"
  by (simp_all add: ptr_in_def)

lemma ptr_off_simps [simp]: "ptr_off (Ptr m i) = i" "ptr_off Null = 0"
  by (simp_all add: ptr_off_def)

lemma concat_map_upd_last:
  assumes "distinct b" "b \<noteq> []"
  shows "concat (map (m(last b := x)) b) = concat (map m (butlast b)) @ x"
proof -
  have "last b \<notin> set (butlast b)"
    using assms by (metis append_butlast_last_id distinct_append disjoint_iff list.set_intros(1))
  then have "concat (map (m(last b := x)) (butlast b)) = concat (map m (butlast b))"
    by (intro concat_map_cong_set) auto
  moreover have "b = butlast b @ [last b]" using assms(2) by simp
  then have "concat (map (m(last b := x)) b)
      = concat (map (m(last b := x)) (butlast b)) @ (m(last b := x)) (last b)"
    by (metis concat.simps(1) concat.simps(2) concat_append list.simps(8) list.simps(9) map_append self_append_conv)
  ultimately show ?thesis by simp
qed

lemma concat_map_last:
  assumes "b \<noteq> []"
  shows "concat (map m b) = concat (map m (butlast b)) @ m (last b)"
proof -
  have "b = butlast b @ [last b]" using assms by simp
  then have "concat (map m b) = concat (map m (butlast b @ [last b]))" by simp
  then show ?thesis by simp
qed

lemma put_chunk_flat:
  assumes inv: "fifo_inv v" and p: "put_ptr v = Ptr t i" and fit: "i + length bs \<le> size_lump v"
  shows "flat (put_chunk_res v bs)
         = take (offset_of v (put_ptr v)) (flat v) @ bs
           @ drop (offset_of v (put_ptr v) + length bs) (flat v)"
proof -
  let ?b = "base v" and ?s = "size_lump v" and ?m = "mem v"
  let ?X = "concat (map ?m (butlast ?b))"
  have b: "distinct ?b" "?b \<noteq> []" using inv by (auto simp: fifo_inv_def)
  have t: "t = last ?b" using inv p by (auto simp: fifo_inv_def)
  have len: "length (?m t) = ?s" using inv t b by (auto simp: fifo_inv_def)
  have "\<forall>l\<in>set (butlast ?b). length (?m l) = ?s"
    using inv by (auto simp: fifo_inv_def dest: in_set_butlastD)
  then have lx: "length ?X = length (butlast ?b) * ?s" by (rule length_flat)
  have "lump_pos ?b t = length ?b - 1" using b t by (simp add: lump_pos_last)
  then have P: "offset_of v (put_ptr v) = length ?X + i"
    using p lx by (simp add: offset_of_def)
  have f: "flat v = ?X @ ?m t" using b t by (simp add: flat_def concat_map_last)
  have "flat (put_chunk_res v bs) = ?X @ (take i (?m t) @ bs @ drop (i + length bs) (?m t))"
    using b unfolding t [symmetric]
    by (simp add: flat_def put_chunk_res_def p t concat_map_upd_last)
  then show ?thesis
    using fit len by (simp add: P f)
qed

lemma put_chunk_res_fields:
  assumes "put_ptr v = Ptr t i"
  shows "base (put_chunk_res v bs) = base v"
  "size_lump (put_chunk_res v bs) = size_lump v"
  "p_start (put_chunk_res v bs) = p_start v"
  "p_end (put_chunk_res v bs) = p_end v"
  "p_get_end (put_chunk_res v bs) = p_get_end v"
  "hold_ptr (put_chunk_res v bs) = hold_ptr v"
  "get_ptr (put_chunk_res v bs) = get_ptr v"
  "get_lump (put_chunk_res v bs) = get_lump v"
  "end_ptr (put_chunk_res v bs) = end_ptr v"
  "end_lump (put_chunk_res v bs) = end_lump v"
  "put_end (put_chunk_res v bs) = put_end v"
  "spare (put_chunk_res v bs) = spare v"
  "freed (put_chunk_res v bs) = freed v"
  "nalloc (put_chunk_res v bs) = nalloc v"
  "put_ptr (put_chunk_res v bs) = Ptr t (i + length bs)"
  "mem (put_chunk_res v bs) = (mem v)(t := take i (mem v t) @ bs @ drop (i + length bs) (mem v t))"
  using assms by (simp_all add: put_chunk_res_def)

lemma offset_of_cong:
  "base v' = base v \<Longrightarrow> size_lump v' = size_lump v \<Longrightarrow> offset_of v' p = offset_of v p"
  by (simp add: offset_of_def)

lemma bytes_between_alt:
  "bytes_between v p q = drop (offset_of v p) (take (offset_of v q) (flat v))"
  by (simp add: bytes_between_def slice_alt offset_of_def flat_def)

lemma bytes_between_old:
  assumes "base v' = base v" "size_lump v' = size_lump v"
    and "take n (flat v') = take n (flat v)" "offset_of v q \<le> n"
  shows "bytes_between v' p q = bytes_between v p q"
proof -
  have "take (offset_of v q) (take n (flat v')) = take (offset_of v q) (take n (flat v))"
    using assms(3) by simp
  then have "take (offset_of v q) (flat v') = take (offset_of v q) (flat v)"
    using assms(4) by (simp add: min_absorb1)
  then show ?thesis
    using assms(1,2) by (simp add: bytes_between_alt offset_of_def)
qed

lemma bytes_between_ext:
  assumes "base v' = base v" "size_lump v' = size_lump v"
    and "flat v' = take n (flat v) @ bs @ rest"
    and "offset_of v p \<le> n" "n \<le> length (flat v)"
    and "offset_of v q = n" "offset_of v' q' = n + length bs"
  shows "bytes_between v' p q' = bytes_between v p q @ bs"
proof -
  have "offset_of v' p = offset_of v p"
    using assms(1,2) by (simp add: offset_of_def)
  then show ?thesis
    using assms(3-7) by (simp add: bytes_between_alt)
qed

lemma put_chunk_views:
  assumes inv: "fifo_inv v" and p: "put_ptr v = Ptr t i" and fit: "i + length bs \<le> size_lump v"
  shows "held (put_chunk_res v bs) = held v"
    and "p_end v = F_end_ptr \<Longrightarrow> visible (put_chunk_res v bs) = visible v"
    and "p_end v = F_end_ptr \<Longrightarrow> provisional (put_chunk_res v bs) = provisional v @ bs"
    and "p_end v = F_put_ptr \<Longrightarrow> visible (put_chunk_res v bs) = visible v @ bs"
    and "p_end v = F_put_ptr \<Longrightarrow> provisional (put_chunk_res v bs) = []"
proof -
  let ?v = "put_chunk_res v bs"
  let ?P = "offset_of v (put_ptr v)"
  note F = put_chunk_res_fields [OF p]
  have fl: "flat ?v = take ?P (flat v) @ bs @ drop (?P + length bs) (flat v)"
    using inv p fit by (rule put_chunk_flat)
  have le: "?P \<le> length (flat v)"
    using fifo_inv_offset_le(2) [OF inv, of F_put_ptr] by simp
  have tk: "take ?P (flat ?v) = take ?P (flat v)"
    using le by (simp add: fl)
  have ps: "p_start v = F_get_ptr \<or> p_start v = F_hold_ptr"
    using inv by (auto simp: fifo_inv_def)
  have og: "offset_of v (get_ptr v) \<le> ?P"
    using fifo_inv_offset_le(1) [OF inv, of F_get_ptr] by simp
  have op: "offset_of ?v (put_ptr ?v) = ?P + length bs"
    using p by (simp add: offset_of_def F)
  have "bytes_between ?v (deref v (p_start v)) (get_ptr v)
        = bytes_between v (deref v (p_start v)) (get_ptr v)"
    using F(1,2) tk og by (rule bytes_between_old)
  moreover have "deref ?v (p_start v) = deref v (p_start v)"
    using ps by (auto simp: F)
  ultimately show "held ?v = held v"
    by (simp add: held_def F)
  {
    assume e: "p_end v = F_end_ptr"
    have oe: "offset_of v (end_ptr v) \<le> ?P"
      using fifo_inv_offset_le(1) [OF inv, of "p_end v"] e by simp
    have "bytes_between ?v (get_ptr v) (end_ptr v) = bytes_between v (get_ptr v) (end_ptr v)"
      using F(1,2) tk oe by (rule bytes_between_old)
    then show "visible ?v = visible v"
      using e by (simp add: visible_def F)
    have "bytes_between ?v (end_ptr v) (put_ptr ?v) = bytes_between v (end_ptr v) (put_ptr v) @ bs"
      using F(1,2) fl oe le refl op by (rule bytes_between_ext)
    then show "provisional ?v = provisional v @ bs"
      using e by (simp add: provisional_def F)
  next
    assume e: "p_end v = F_put_ptr"
    have "bytes_between ?v (get_ptr v) (put_ptr ?v) = bytes_between v (get_ptr v) (put_ptr v) @ bs"
      using F(1,2) fl og le refl op by (rule bytes_between_ext)
    then show "visible ?v = visible v @ bs"
      using e by (simp add: visible_def F)
    show "provisional ?v = []"
      using e by (simp add: provisional_def bytes_between_alt F(4))
  }
qed

lemma put_chunk_inv:
  assumes inv: "fifo_inv v" and p: "put_ptr v = Ptr t i" and fit: "i + length bs \<le> size_lump v"
    and ne: "bs \<noteq> []"
  shows "fifo_inv (put_chunk_res v bs)"
proof -
  let ?v = "put_chunk_res v bs"
  let ?b = "base v" and ?s = "size_lump v"
  note F = put_chunk_res_fields [OF p]
  have t: "t = last ?b" using inv p by (auto simp: fifo_inv_def)
  have tb: "t \<in> set ?b" using inv t by (auto simp: fifo_inv_def)
  have pe: "p_end v = F_put_ptr \<or> p_end v = F_end_ptr"
    and ps: "p_start v = F_get_ptr \<or> p_start v = F_hold_ptr"
    using inv by (auto simp: fifo_inv_def)
  have c1: "0 < size_lump ?v \<and> size_lump ?v mod 128 = 0"
    using inv by (simp add: F fifo_inv_def)
  have c2: "base ?v \<noteq> [] \<and> distinct (base ?v)"
    using inv by (simp add: F fifo_inv_def)
  have c3: "\<forall>x \<in> set (base ?v). length (mem ?v x) = size_lump ?v \<and> x \<le> nalloc ?v"
    using inv fit by (auto simp: F fifo_inv_def)
  have c4: "(case spare ?v of None \<Rightarrow> True
      | Some sp \<Rightarrow> sp \<notin> set (base ?v) \<and> length (mem ?v sp) = size_lump ?v \<and> sp \<le> nalloc ?v)"
    using inv tb by (cases "spare v") (auto simp: F fifo_inv_def)
  have c5: "own_lump \<in> set (base ?v) \<or> spare ?v = Some own_lump"
    using inv by (simp add: F fifo_inv_def)
  have c6: "own_lump \<notin> set (freed ?v)"
    using inv by (simp add: F fifo_inv_def)
  have c7: "ptr_in (put_ptr ?v) (last (base ?v)) (size_lump ?v)"
    using fit t by (simp add: F)
  have c8: "put_end ?v = Ptr (last (base ?v)) (size_lump ?v)"
    using inv by (simp add: F fifo_inv_def)
  have c9: "get_lump ?v \<in> set (base ?v)"
    using inv by (simp add: F fifo_inv_def)
  have c10: "ptr_in (get_ptr ?v) (get_lump ?v) (size_lump ?v)"
    using inv by (simp add: F fifo_inv_def)
  have c11: "get_lump ?v \<noteq> end_lump ?v \<longrightarrow> ptr_off (get_ptr ?v) < size_lump ?v"
    using inv by (simp add: F fifo_inv_def)
  have c12: "end_lump ?v \<in> set (base ?v)"
    using inv by (simp add: F fifo_inv_def)
  have c13: "p_end ?v = F_put_ptr \<and> end_lump ?v = last (base ?v) \<or>
      p_end ?v = F_end_ptr \<and> ptr_in (end_ptr ?v) (end_lump ?v) (size_lump ?v) \<and>
        (end_lump ?v \<noteq> last (base ?v) \<longrightarrow> ptr_off (end_ptr ?v) < size_lump ?v)"
    using inv unfolding F fifo_inv_def by blast
  have c14: "p_start ?v = F_get_ptr \<and> get_lump ?v = hd (base ?v) \<or>
      p_start ?v = F_hold_ptr \<and> ptr_in (hold_ptr ?v) (hd (base ?v)) (size_lump ?v)"
    using inv unfolding F fifo_inv_def by blast
  have c15: "p_get_end ?v = (if get_lump ?v = end_lump ?v then p_end ?v else F_lump_end (get_lump ?v))"
    using inv unfolding F fifo_inv_def by blast
  have o: "offset_of v (deref v (p_start v)) \<le> offset_of v (get_ptr v)"
    "offset_of v (get_ptr v) \<le> offset_of v (deref v (p_end v))"
    "offset_of v (deref v (p_end v)) \<le> offset_of v (put_ptr v)"
    using inv by (simp_all add: fifo_inv_def)
  have op: "offset_of ?v (put_ptr ?v) = offset_of v (put_ptr v) + length bs"
    using p by (simp add: offset_of_def F)
  have oc: "\<And>q. offset_of ?v q = offset_of v q"
    by (simp add: offset_of_def F)
  have ds: "deref ?v (p_start ?v) = deref v (p_start v)"
    using ps by (auto simp: F)
  have c16: "offset_of ?v (deref ?v (p_start ?v)) \<le> offset_of ?v (get_ptr ?v)"
    using o(1) by (simp add: ds oc F(7))
  have c17: "offset_of ?v (get_ptr ?v) \<le> offset_of ?v (deref ?v (p_end ?v))"
    using pe o(2) o(3) op by (auto simp: oc F(4,7,9))
  have c18: "offset_of ?v (deref ?v (p_end ?v)) \<le> offset_of ?v (put_ptr ?v)"
    using pe o(3) op by (auto simp: oc F(4,9))
  obtain n where n: "length bs = Suc n" using ne by (cases bs) auto
  have "offset_of ?v (deref ?v (p_start ?v)) < offset_of ?v (put_ptr ?v)"
    using o op n unfolding ds oc by linarith
  then have c19: "deref ?v (p_start ?v) = put_ptr ?v \<longrightarrow> ptr_off (put_ptr ?v) = 0"
    by auto
  show ?thesis
    unfolding fifo_inv_def
    using c1 c2 c3 c4 c5 c6 c7 c8 c9 c10 c11 c12 c13 c14 c15 c16 c17 c18 c19
    by blast
qed

lemma provisional_no_mark: "p_end v = F_put_ptr \<Longrightarrow> provisional v = []"
  by (simp add: provisional_def bytes_between_alt)

lemma put_step1:
  assumes inv: "fifo_inv v"
  obtains v1 t i full where
    "ptr_ge (put_ptr v) (put_end v) = Some full"
    "(if full then vio_fifo_add_lump v else Some v) = Some v1"
    "fifo_inv v1" "put_post v [] v1" "put_ptr v1 = Ptr t i" "i < size_lump v1"
    "put_end v1 = Ptr t (size_lump v1)"
proof -
  obtain pi where p: "put_ptr v = Ptr (last (base v)) pi" "pi \<le> size_lump v"
    using inv by (rule fifo_inv_put)
  have pe: "put_end v = Ptr (last (base v)) (size_lump v)"
    using inv by (simp add: fifo_inv_def)
  have s: "0 < size_lump v" using inv by (simp add: fifo_inv_def)
  have pem: "p_end v = F_put_ptr \<or> p_end v = F_end_ptr"
    using inv by (auto simp: fifo_inv_def)
  show thesis
  proof (cases "pi = size_lump v")
    case True
    then have full: "put_ptr v = put_end v" using p pe by simp
    have "deref v (p_start v) \<noteq> put_ptr v"
      using inv p True s by (auto simp: fifo_inv_def)
    then have "vio_fifo_add_lump v = Some (add_lump_res v)"
      using full pem by (intro add_lump_eq) auto
    then have 1: "(if True then vio_fifo_add_lump v else Some v) = Some (add_lump_res v)"
      by simp
    have 0: "ptr_ge (put_ptr v) (put_end v) = Some True"
      using p pe True by simp
    have 2: "fifo_inv (add_lump_res v)" using inv full by (rule add_lump_inv)
    have 3: "put_post v [] (add_lump_res v)"
      using 2 add_lump_views [OF inv full] provisional_no_mark [of v]
      by (auto simp: put_post_def add_lump_res_fields)
    have 4: "put_ptr (add_lump_res v) = Ptr (new_lump v) 0"
      and 5: "0 < size_lump (add_lump_res v)"
      and 6: "put_end (add_lump_res v) = Ptr (new_lump v) (size_lump (add_lump_res v))"
      using s by (simp_all add: add_lump_res_fields)
    show ?thesis
      using 0 1 2 3 4 5 6 by (rule that)
  next
    case False
    then have 0: "ptr_ge (put_ptr v) (put_end v) = Some False"
      using p pe by simp
    have 1: "(if False then vio_fifo_add_lump v else Some v) = Some v"
      by simp
    have 3: "put_post v [] v"
      using inv provisional_no_mark [of v] by (auto simp: put_post_def)
    have 5: "pi < size_lump v" using False p(2) by simp
    show ?thesis
      using 0 1 inv 3 p(1) 5 pe by (rule that)
  qed
qed

lemma put_step2:
  assumes inv1: "fifo_inv v1" and p: "put_ptr v1 = Ptr t i" "i < size_lump v1"
    "put_end v1 = Ptr t (size_lump v1)" and ne: "bs \<noteq> []"
  defines "tk \<equiv> min (size_lump v1 - i) (length bs)"
  shows "do { room \<leftarrow> ptr_diff (put_end v1) (put_ptr v1);
              let tk = (if room > length bs then length bs else room);
              v2 \<leftarrow> memcpy_in v1 (put_ptr v1) (take tk bs);
              f (v2\<lparr>put_ptr := ptr_add (put_ptr v2) tk\<rparr>) (drop tk bs) }
         = f (put_chunk_res v1 (take tk bs)) (drop tk bs)"
    and "0 < tk" and "i + tk \<le> size_lump v1" and "tk \<le> length bs"
proof -
  have t: "t = last (base v1)" using inv1 p(1) by (auto simp: fifo_inv_def)
  then have len: "length (mem v1 t) = size_lump v1"
    using inv1 by (auto simp: fifo_inv_def)
  show tk0: "0 < tk" using p(2) ne by (simp add: tk_def)
  show fit: "i + tk \<le> size_lump v1" using p(2) by (simp add: tk_def)
  show tkl: "tk \<le> length bs" by (simp add: tk_def)
  have tk': "(if size_lump v1 - i > length bs then length bs else size_lump v1 - i) = tk"
    by (simp add: tk_def min_def)
  have lt: "length (take tk bs) = tk" using tkl by simp
  show "do { room \<leftarrow> ptr_diff (put_end v1) (put_ptr v1);
              let tk = (if room > length bs then length bs else room);
              v2 \<leftarrow> memcpy_in v1 (put_ptr v1) (take tk bs);
              f (v2\<lparr>put_ptr := ptr_add (put_ptr v2) tk\<rparr>) (drop tk bs) }
         = f (put_chunk_res v1 (take tk bs)) (drop tk bs)"
    using p fit by (simp add: Let_def tk' len lt put_chunk_res_def del: length_take)
qed

lemma put_bytes_ok:
  assumes "fifo_inv v"
  shows "\<exists>v'. vio_fifo_put_bytes v bs = Some v' \<and> put_post v bs v'"
  using assms
proof (induction bs arbitrary: v rule: length_induct)
  case (1 bs)
  show ?case
  proof (cases "bs = []")
    case True
    have "vio_fifo_put_bytes v bs = Some v"
      using True by (subst vio_fifo_put_bytes.simps) simp
    moreover have "put_post v bs v"
      using True "1.prems" provisional_no_mark [of v] by (auto simp: put_post_def)
    ultimately show ?thesis by blast
  next
    case False
    obtain v1 t i full where s1: "ptr_ge (put_ptr v) (put_end v) = Some full"
      "(if full then vio_fifo_add_lump v else Some v) = Some v1"
      and inv1: "fifo_inv v1" and post1: "put_post v [] v1"
      and p: "put_ptr v1 = Ptr t i" "i < size_lump v1" "put_end v1 = Ptr t (size_lump v1)"
      using "1.prems" by (rule put_step1)
    define tk where "tk = min (size_lump v1 - i) (length bs)"
    define v2 where "v2 = put_chunk_res v1 (take tk bs)"
    note s2 = put_step2 [OF inv1 p False, folded tk_def]
    have unf: "vio_fifo_put_bytes v bs = vio_fifo_put_bytes v2 (drop tk bs)"
      using False s1 s2(1) [of vio_fifo_put_bytes]
      by (subst vio_fifo_put_bytes.simps) (simp add: v2_def)
    have lt: "length (take tk bs) = tk" using s2(4) by simp
    have ne2: "take tk bs \<noteq> []" using s2(2) False by (cases bs) auto
    have fit: "i + length (take tk bs) \<le> size_lump v1" using s2(3) lt by simp
    have inv2: "fifo_inv v2"
      unfolding v2_def using inv1 p(1) fit ne2 by (rule put_chunk_inv)
    note V = put_chunk_views [OF inv1 p(1) fit, folded v2_def]
    note F = put_chunk_res_fields [OF p(1), of "take tk bs", folded v2_def]
    have "length (drop tk bs) < length bs" using s2(2) False by simp
    then obtain v' where r: "vio_fifo_put_bytes v2 (drop tk bs) = Some v'"
      and post': "put_post v2 (drop tk bs) v'"
      using "1.IH" inv2 by blast
    have pem: "p_end v = F_put_ptr \<or> p_end v = F_end_ptr"
      using "1.prems" by (auto simp: fifo_inv_def)
    have "put_post v bs v'"
      using pem
    proof
      assume e: "p_end v = F_put_ptr"
      then have e1: "p_end v1 = F_put_ptr" using post1 by (simp add: put_post_def)
      have "visible v2 = visible v @ take tk bs"
        using V(4) [OF e1] post1 e by (simp add: put_post_def)
      then show ?thesis
        using post' post1 e e1 V(1) by (simp add: put_post_def F)
    next
      assume e: "p_end v = F_end_ptr"
      then have e1: "p_end v1 = F_end_ptr" using post1 by (simp add: put_post_def)
      have "visible v2 = visible v" "provisional v2 = provisional v @ take tk bs"
        using V(2,3) [OF e1] post1 e by (simp_all add: put_post_def)
      then show ?thesis
        using post' post1 e e1 V(1) by (simp add: put_post_def F)
    qed
    then show ?thesis using unf r by simp
  qed
qed

lemma lump_pos_inj:
  "l \<in> set b \<Longrightarrow> l' \<in> set b \<Longrightarrow> lump_pos b l = lump_pos b l' \<Longrightarrow> l = l'"
  by (induction b) (auto split: if_splits)

lemma fifo_inv_end:
  assumes "fifo_inv v"
  obtains ei where "deref v (p_end v) = Ptr (end_lump v) ei" "ei \<le> size_lump v"
    "end_lump v \<noteq> last (base v) \<longrightarrow> ei < size_lump v"
proof -
  have "p_end v = F_put_ptr \<and> end_lump v = last (base v) \<or>
      p_end v = F_end_ptr \<and> ptr_in (end_ptr v) (end_lump v) (size_lump v) \<and>
        (end_lump v \<noteq> last (base v) \<longrightarrow> ptr_off (end_ptr v) < size_lump v)"
    using assms unfolding fifo_inv_def by blast
  then show thesis
  proof (elim disjE conjE)
    assume e: "p_end v = F_put_ptr" "end_lump v = last (base v)"
    obtain pi where "put_ptr v = Ptr (last (base v)) pi" "pi \<le> size_lump v"
      using assms by (rule fifo_inv_put)
    then show thesis using e by (intro that [of pi]) simp_all
  next
    assume e: "p_end v = F_end_ptr" "ptr_in (end_ptr v) (end_lump v) (size_lump v)"
      "end_lump v \<noteq> last (base v) \<longrightarrow> ptr_off (end_ptr v) < size_lump v"
    then obtain ei where "end_ptr v = Ptr (end_lump v) ei" "ei \<le> size_lump v"
      by (auto dest!: ptr_inD)
    then show thesis using e by (intro that [of ei]) simp_all
  qed
qed

lemma fifo_inv_lump_order:
  assumes inv: "fifo_inv v" and ne: "get_lump v \<noteq> end_lump v"
  shows "lump_pos (base v) (get_lump v) < lump_pos (base v) (end_lump v)"
proof (rule ccontr)
  let ?b = "base v" and ?s = "size_lump v"
  let ?g = "lump_pos ?b (get_lump v)" and ?e = "lump_pos ?b (end_lump v)"
  assume "\<not> ?g < ?e"
  moreover have gl: "get_lump v \<in> set ?b" and el: "end_lump v \<in> set ?b"
    using inv by (simp_all add: fifo_inv_def)
  then have "?g \<noteq> ?e" using ne lump_pos_inj by blast
  ultimately have lt: "Suc ?e \<le> ?g" by simp
  obtain gi where g: "get_ptr v = Ptr (get_lump v) gi" using inv by (rule fifo_inv_get)
  obtain ei where e: "deref v (p_end v) = Ptr (end_lump v) ei" "ei \<le> ?s"
    "end_lump v \<noteq> last ?b \<longrightarrow> ei < ?s" using inv by (rule fifo_inv_end)
  have b: "distinct ?b" "?b \<noteq> []" using inv by (auto simp: fifo_inv_def)
  have "?g < length ?b" using gl by (rule lump_pos_less)
  then have "?e \<noteq> length ?b - 1" using lt by simp
  then have "end_lump v \<noteq> last ?b" using lump_pos_last [OF b] by auto
  then have ei: "ei < ?s" using e(3) by simp
  have "Suc ?e * ?s \<le> ?g * ?s" using lt by (rule mult_le_mono1)
  then have "?e * ?s + ei < ?g * ?s + gi" using ei by simp
  moreover have "offset_of v (get_ptr v) \<le> offset_of v (deref v (p_end v))"
    using inv by (simp add: fifo_inv_def)
  ultimately show False using g e(1) by (simp add: offset_of_def)
qed

lemma drop_flat_at:
  assumes "l \<in> set b" "\<forall>x\<in>set b. length (m x) = s" "i \<le> s"
  shows "drop (lump_pos b l * s + i) (concat (map m b))
         = drop i (m l) @ concat (map m (drop (Suc (lump_pos b l)) b))"
  using assms
proof (induction b)
  case Nil
  then show ?case by simp
next
  case (Cons x xs)
  show ?case
  proof (cases "x = l")
    case True
    then show ?thesis using Cons.prems by simp
  next
    case False
    then have "l \<in> set xs" using Cons.prems by simp
    then have "drop (lump_pos xs l * s + i) (concat (map m xs))
         = drop i (m l) @ concat (map m (drop (Suc (lump_pos xs l)) xs))"
      using Cons.prems by (intro Cons.IH) simp_all
    moreover have "length (m x) = s" using Cons.prems by simp
    ultimately show ?thesis using False by (simp add: add.assoc)
  qed
qed

lemma get_limit:
  assumes inv: "fifo_inv v"
  obtains gi n where "get_ptr v = Ptr (get_lump v) gi"
    "deref v (p_get_end v) = Ptr (get_lump v) (gi + n)"
    "gi + n \<le> size_lump v"
    "get_lump v = end_lump v \<longrightarrow> deref v (p_end v) = Ptr (get_lump v) (gi + n)"
    "get_lump v \<noteq> end_lump v \<longrightarrow> gi + n = size_lump v \<and> 0 < n"
    "offset_of v (get_ptr v) + n \<le> offset_of v (deref v (p_end v))"
proof -
  let ?b = "base v" and ?s = "size_lump v"
  obtain gi where g: "get_ptr v = Ptr (get_lump v) gi" "gi \<le> ?s"
    "get_lump v \<noteq> end_lump v \<longrightarrow> gi < ?s" using inv by (rule fifo_inv_get)
  obtain ei where e: "deref v (p_end v) = Ptr (end_lump v) ei" "ei \<le> ?s"
    using inv by (rule fifo_inv_end)
  have pge: "p_get_end v = (if get_lump v = end_lump v then p_end v else F_lump_end (get_lump v))"
    using inv unfolding fifo_inv_def by blast
  have o: "offset_of v (get_ptr v) \<le> offset_of v (deref v (p_end v))"
    using inv by (simp add: fifo_inv_def)
  show thesis
  proof (cases "get_lump v = end_lump v")
    case True
    then have "gi \<le> ei" using o g(1) e(1) by (simp add: offset_of_def)
    then obtain n where n: "ei = gi + n" using le_Suc_ex by blast
    show ?thesis
    proof (rule that [of gi n])
      show "get_ptr v = Ptr (get_lump v) gi" by (rule g(1))
      show "deref v (p_get_end v) = Ptr (get_lump v) (gi + n)"
        using True pge e(1) n by simp
      show "gi + n \<le> ?s" using e(2) n by simp
      show "get_lump v = end_lump v \<longrightarrow> deref v (p_end v) = Ptr (get_lump v) (gi + n)"
        using True e(1) n by simp
      show "get_lump v \<noteq> end_lump v \<longrightarrow> gi + n = ?s \<and> 0 < n" using True by simp
      show "offset_of v (get_ptr v) + n \<le> offset_of v (deref v (p_end v))"
        using True g(1) e(1) n by (simp add: offset_of_def)
    qed
  next
    case False
    then have lt: "gi < ?s" using g(3) by simp
    have ord: "lump_pos ?b (get_lump v) < lump_pos ?b (end_lump v)"
      using inv False by (rule fifo_inv_lump_order)
    then have "Suc (lump_pos ?b (get_lump v)) * ?s \<le> lump_pos ?b (end_lump v) * ?s"
      by (intro mult_le_mono1) simp
    then have le: "lump_pos ?b (get_lump v) * ?s + ?s \<le> lump_pos ?b (end_lump v) * ?s + ei"
      by simp
    show ?thesis
    proof (rule that [of gi "?s - gi"])
      show "get_ptr v = Ptr (get_lump v) gi" by (rule g(1))
      show "deref v (p_get_end v) = Ptr (get_lump v) (gi + (?s - gi))"
        using False pge lt by simp
      show "gi + (?s - gi) \<le> ?s" using lt by simp
      show "get_lump v = end_lump v \<longrightarrow> deref v (p_end v) = Ptr (get_lump v) (gi + (?s - gi))"
        using False by simp
      show "get_lump v \<noteq> end_lump v \<longrightarrow> gi + (?s - gi) = ?s \<and> 0 < ?s - gi"
        using lt by simp
      show "offset_of v (get_ptr v) + (?s - gi) \<le> offset_of v (deref v (p_end v))"
        using g(1) e(1) le lt by (simp add: offset_of_def)
    qed
  qed
qed

lemma drop_take_add:
  "h \<le> g \<Longrightarrow> drop h (take (g + k) xs) = drop h (take g xs) @ take k (drop g xs)"
  by (cases "g \<le> length xs") (simp_all add: take_add min_def)

lemma get_adv_views:
  assumes inv: "fifo_inv v"
    and k: "offset_of v (get_ptr v) + k \<le> offset_of v (deref v (p_end v))"
  shows "visible (get_adv v k) = drop k (visible v)"
    and "provisional (get_adv v k) = provisional v"
    and "held (get_adv v k) = (if p_start v = F_hold_ptr then held v @ take k (visible v) else [])"
    and "ptr_off (get_ptr v) + k \<le> size_lump v \<Longrightarrow>
         memcpy_out v (get_ptr v) k = Some (take k (visible v))"
    and "offset_of (get_adv v k) (get_ptr (get_adv v k)) = offset_of v (get_ptr v) + k"
proof -
  let ?v = "get_adv v k"
  let ?b = "base v" and ?s = "size_lump v"
  obtain gi where g: "get_ptr v = Ptr (get_lump v) gi" "gi \<le> ?s"
    using inv by (rule fifo_inv_get)
  have pe: "p_end v = F_put_ptr \<or> p_end v = F_end_ptr"
    and ps: "p_start v = F_get_ptr \<or> p_start v = F_hold_ptr"
    using inv by (auto simp: fifo_inv_def)
  have de: "deref ?v (p_end ?v) = deref v (p_end v)"
    using pe by (auto simp: get_adv_def)
  have fl: "flat ?v = flat v" by (simp add: flat_def get_adv_def)
  have oc: "\<And>q. offset_of ?v q = offset_of v q" by (simp add: offset_of_def get_adv_def)
  have og: "offset_of v (get_ptr ?v) = offset_of v (get_ptr v) + k"
    using g(1) by (simp add: offset_of_def get_adv_def)
  show "offset_of ?v (get_ptr ?v) = offset_of v (get_ptr v) + k"
    using og by (simp add: oc)
  show "visible ?v = drop k (visible v)"
    by (simp add: visible_def bytes_between_alt de fl oc og add.commute)
  have pp: "put_ptr ?v = put_ptr v" by (simp add: get_adv_def)
  show "provisional ?v = provisional v"
    by (simp add: provisional_def bytes_between_alt de fl oc pp)
  have o1: "offset_of v (deref v (p_start v)) \<le> offset_of v (get_ptr v)"
    using inv by (simp add: fifo_inv_def)
  have tk: "take k (visible v) = take k (drop (offset_of v (get_ptr v)) (flat v))"
    using k by (simp add: visible_def bytes_between_alt drop_take min_absorb1)
  show "held ?v = (if p_start v = F_hold_ptr then held v @ take k (visible v) else [])"
    using ps
  proof
    assume a: "p_start v = F_get_ptr"
    then show ?thesis by (simp add: held_def bytes_between_alt get_adv_def)
  next
    assume a: "p_start v = F_hold_ptr"
    have "held ?v = drop (offset_of v (hold_ptr v)) (take (offset_of v (get_ptr v) + k) (flat v))"
      using a og by (simp add: held_def bytes_between_alt fl oc) (simp add: get_adv_def)
    then show ?thesis
      using a o1 by (simp add: drop_take_add tk) (simp add: held_def bytes_between_alt)
  qed
  have gl: "get_lump v \<in> set ?b" using inv by (simp add: fifo_inv_def)
  have len: "\<forall>x\<in>set ?b. length (mem v x) = ?s" using inv by (simp add: fifo_inv_def)
  have dr: "drop (offset_of v (get_ptr v)) (flat v)
      = drop gi (mem v (get_lump v)) @ concat (map (mem v) (drop (Suc (lump_pos ?b (get_lump v))) ?b))"
    using drop_flat_at [OF gl len g(2)] g(1) by (simp add: offset_of_def flat_def)
  show "memcpy_out v (get_ptr v) k = Some (take k (visible v))"
    if "ptr_off (get_ptr v) + k \<le> size_lump v"
  proof -
    have fit: "gi + k \<le> ?s" using that g(1) by simp
    have "length (mem v (get_lump v)) = ?s" using gl len by simp
    then show ?thesis
      using fit by (simp add: g(1) tk [unfolded g(1)] dr [unfolded g(1)])
  qed
qed

lemma get_adv_fields:
  "base (get_adv v k) = base v"
  "size_lump (get_adv v k) = size_lump v"
  "p_start (get_adv v k) = p_start v"
  "p_end (get_adv v k) = p_end v"
  "p_get_end (get_adv v k) = p_get_end v"
  "hold_ptr (get_adv v k) = hold_ptr v"
  "get_lump (get_adv v k) = get_lump v"
  "end_ptr (get_adv v k) = end_ptr v"
  "end_lump (get_adv v k) = end_lump v"
  "put_ptr (get_adv v k) = put_ptr v"
  "put_end (get_adv v k) = put_end v"
  "spare (get_adv v k) = spare v"
  "freed (get_adv v k) = freed v"
  "nalloc (get_adv v k) = nalloc v"
  "mem (get_adv v k) = mem v"
  "get_ptr (get_adv v k) = ptr_add (get_ptr v) k"
  by (simp_all add: get_adv_def)

lemma get_adv_inv:
  assumes inv: "fifo_inv v"
    and k: "offset_of v (get_ptr v) + k \<le> offset_of v (deref v (p_end v))"
    and fit: "ptr_off (get_ptr v) + k \<le> size_lump v"
    and amb: "get_lump v \<noteq> end_lump v \<longrightarrow> ptr_off (get_ptr v) + k < size_lump v"
    and emp: "deref (get_adv v k) (p_start v) = put_ptr v \<longrightarrow> ptr_off (put_ptr v) = 0"
  shows "fifo_inv (get_adv v k)"
proof -
  let ?v = "get_adv v k"
  note F = get_adv_fields [of v k]
  obtain gi where g: "get_ptr v = Ptr (get_lump v) gi"
    using inv by (rule fifo_inv_get)
  have pe: "p_end v = F_put_ptr \<or> p_end v = F_end_ptr"
    and ps: "p_start v = F_get_ptr \<or> p_start v = F_hold_ptr"
    using inv by (auto simp: fifo_inv_def)
  have c1: "0 < size_lump ?v \<and> size_lump ?v mod 128 = 0"
    using inv unfolding F fifo_inv_def by blast
  have c2: "base ?v \<noteq> [] \<and> distinct (base ?v)"
    using inv unfolding F fifo_inv_def by blast
  have c3: "\<forall>x \<in> set (base ?v). length (mem ?v x) = size_lump ?v \<and> x \<le> nalloc ?v"
    using inv unfolding F fifo_inv_def by blast
  have c4: "(case spare ?v of None \<Rightarrow> True
      | Some sp \<Rightarrow> sp \<notin> set (base ?v) \<and> length (mem ?v sp) = size_lump ?v \<and> sp \<le> nalloc ?v)"
    using inv unfolding F fifo_inv_def by blast
  have c5: "own_lump \<in> set (base ?v) \<or> spare ?v = Some own_lump"
    using inv unfolding F fifo_inv_def by blast
  have c6: "own_lump \<notin> set (freed ?v)"
    using inv unfolding F fifo_inv_def by blast
  have c7: "ptr_in (put_ptr ?v) (last (base ?v)) (size_lump ?v)"
    using inv unfolding F fifo_inv_def by blast
  have c8: "put_end ?v = Ptr (last (base ?v)) (size_lump ?v)"
    using inv unfolding F fifo_inv_def by blast
  have c9: "get_lump ?v \<in> set (base ?v)"
    using inv unfolding F fifo_inv_def by blast
  have c10: "ptr_in (get_ptr ?v) (get_lump ?v) (size_lump ?v)"
    using fit g by (simp add: F)
  have c11: "get_lump ?v \<noteq> end_lump ?v \<longrightarrow> ptr_off (get_ptr ?v) < size_lump ?v"
    using amb g by (simp add: F)
  have c12: "end_lump ?v \<in> set (base ?v)"
    using inv unfolding F fifo_inv_def by blast
  have c13: "p_end ?v = F_put_ptr \<and> end_lump ?v = last (base ?v) \<or>
      p_end ?v = F_end_ptr \<and> ptr_in (end_ptr ?v) (end_lump ?v) (size_lump ?v) \<and>
        (end_lump ?v \<noteq> last (base ?v) \<longrightarrow> ptr_off (end_ptr ?v) < size_lump ?v)"
    using inv unfolding F fifo_inv_def by blast
  have c14: "p_start ?v = F_get_ptr \<and> get_lump ?v = hd (base ?v) \<or>
      p_start ?v = F_hold_ptr \<and> ptr_in (hold_ptr ?v) (hd (base ?v)) (size_lump ?v)"
    using inv unfolding F fifo_inv_def by blast
  have c15: "p_get_end ?v = (if get_lump ?v = end_lump ?v then p_end ?v else F_lump_end (get_lump ?v))"
    using inv unfolding F fifo_inv_def by blast
  have o: "offset_of v (deref v (p_start v)) \<le> offset_of v (get_ptr v)"
    "offset_of v (deref v (p_end v)) \<le> offset_of v (put_ptr v)"
    using inv by (simp_all add: fifo_inv_def)
  have oc: "\<And>q. offset_of ?v q = offset_of v q"
    by (simp add: offset_of_def F)
  have og: "offset_of v (get_ptr ?v) = offset_of v (get_ptr v) + k"
    using g by (simp add: offset_of_def F)
  have de: "deref ?v (p_end v) = deref v (p_end v)"
    using pe by (auto simp: F)
  have c16: "offset_of ?v (deref ?v (p_start ?v)) \<le> offset_of ?v (get_ptr ?v)"
    using ps o(1) og by (auto simp: oc F(3,6))
  have c17: "offset_of ?v (get_ptr ?v) \<le> offset_of ?v (deref ?v (p_end ?v))"
    using k og by (simp add: oc F(4) de)
  have c18: "offset_of ?v (deref ?v (p_end ?v)) \<le> offset_of ?v (put_ptr ?v)"
    using o(2) by (simp add: oc F(4,10) de)
  have c19: "deref ?v (p_start ?v) = put_ptr ?v \<longrightarrow> ptr_off (put_ptr ?v) = 0"
    using emp by (simp add: F(3,10))
  show ?thesis
    unfolding fifo_inv_def
    using c1 c2 c3 c4 c5 c6 c7 c8 c9 c10 c11 c12 c13 c14 c15 c16 c17 c18 c19
    by blast
qed

lemma deref_get_end:
  assumes inv: "fifo_inv v"
  shows "deref (v\<lparr>get_ptr := p\<rparr>) (p_get_end v) = deref v (p_get_end v)"
proof -
  have "p_end v = F_put_ptr \<or> p_end v = F_end_ptr"
    and "p_get_end v = (if get_lump v = end_lump v then p_end v else F_lump_end (get_lump v))"
    using inv unfolding fifo_inv_def by blast+
  then show ?thesis by (auto split: if_splits)
qed

lemma step_inside:
  assumes inv: "fifo_inv v"
    and g: "get_ptr v = Ptr (get_lump v) gi"
    and lim: "deref v (p_get_end v) = Ptr (get_lump v) (gi + n)" "gi + n \<le> size_lump v"
    and on: "offset_of v (get_ptr v) + n \<le> offset_of v (deref v (p_end v))"
    and k: "0 < k" "k < n"
  shows "vio_fifo_step v k = Some (get_adv v k)" and "get_post v k (get_adv v k)"
proof -
  have d: "deref (get_adv v k) (p_get_end (get_adv v k)) = Ptr (get_lump v) (gi + n)"
    using deref_get_end [OF inv] lim(1) by (simp add: get_adv_def)
  have v1: "v\<lparr>get_ptr := ptr_add (get_ptr v) k\<rparr> = get_adv v k"
    by (simp add: get_adv_def)
  show "vio_fifo_step v k = Some (get_adv v k)"
    unfolding vio_fifo_step_def Let_def v1
    using k(2) by (simp add: d get_adv_fields(16) g)
  have ok: "offset_of v (get_ptr v) + k \<le> offset_of v (deref v (p_end v))"
    using on k(2) by simp
  have lt: "offset_of v (get_ptr v) + k < offset_of v (put_ptr v)"
    using on k(2) inv by (simp add: fifo_inv_def)
  have emp: "deref (get_adv v k) (p_start v) = put_ptr v \<longrightarrow> ptr_off (put_ptr v) = 0"
  proof (cases "p_start v = F_get_ptr")
    case True
    have "get_ptr (get_adv v k) \<noteq> put_ptr v"
    proof
      assume "get_ptr (get_adv v k) = put_ptr v"
      then have "put_ptr v = Ptr (get_lump v) (gi + k)" using g by (simp add: get_adv_fields)
      then show False using lt g by (simp add: offset_of_def)
    qed
    then show ?thesis using True by simp
  next
    case False
    then have "p_start v = F_hold_ptr" using inv by (auto simp: fifo_inv_def)
    then show ?thesis using inv by (auto simp: fifo_inv_def get_adv_fields)
  qed
  have "fifo_inv (get_adv v k)"
    using inv ok _ _ emp
  proof (rule get_adv_inv)
    show "ptr_off (get_ptr v) + k \<le> size_lump v" using g lim(2) k(2) by simp
    show "get_lump v \<noteq> end_lump v \<longrightarrow> ptr_off (get_ptr v) + k < size_lump v"
      using g lim(2) k(2) by simp
  qed
  then show "get_post v k (get_adv v k)"
    using get_adv_views(1,2,3) [OF inv ok] by (simp add: get_post_def get_adv_fields)
qed

lemma length_visible:
  assumes inv: "fifo_inv v"
  shows "length (visible v) = offset_of v (deref v (p_end v)) - offset_of v (get_ptr v)"
proof -
  have "offset_of v (deref v (p_end v)) \<le> length (flat v)"
    using fifo_inv_offset_le(2) [OF inv, of "p_end v"] by simp
  then show ?thesis by (simp add: visible_def bytes_between_alt min_absorb2)
qed

lemma step_end_lump:
  assumes inv: "fifo_inv v"
    and g: "get_ptr v = Ptr (get_lump v) gi"
    and same: "get_lump v = end_lump v"
    and lim: "deref v (p_end v) = Ptr (get_lump v) (gi + n)"
    and n: "0 < n"
  shows "\<exists>v'. vio_fifo_step v n = Some v' \<and> get_post v n v'"
proof -
  let ?v = "get_adv v n"
  let ?b = "base v" and ?s = "size_lump v"
  note F = get_adv_fields [of v n]
  have pe: "p_end v = F_put_ptr \<or> p_end v = F_end_ptr"
    and ps: "p_start v = F_get_ptr \<or> p_start v = F_hold_ptr"
    using inv by (auto simp: fifo_inv_def)
  have pge: "p_get_end v = p_end v" using inv same by (auto simp: fifo_inv_def)
  have de: "deref ?v (p_end v) = deref v (p_end v)" using pe by (auto simp: F)
  have v1: "v\<lparr>get_ptr := ptr_add (get_ptr v) n\<rparr> = ?v" by (simp add: get_adv_def)
  have step: "vio_fifo_step v n = vio_fifo_sync_get ?v"
    unfolding vio_fifo_step_def Let_def v1
    by (simp add: F pge de lim g)
  have sync: "vio_fifo_sync_get ?v
      = (if deref ?v (p_start v) = put_ptr v then vio_fifo_reset_ptrs ?v else Some ?v)"
    using same by (simp add: vio_fifo_sync_get_def F)
  have on: "offset_of v (get_ptr v) + n = offset_of v (deref v (p_end v))"
    using g lim by (simp add: offset_of_def)
  have fit: "gi + n \<le> ?s"
    using fifo_inv_end [OF inv] lim by (metis ptr.inject)
  have o: "offset_of v (deref v (p_start v)) \<le> offset_of v (get_ptr v)"
    "offset_of v (deref v (p_end v)) \<le> offset_of v (put_ptr v)"
    using inv by (simp_all add: fifo_inv_def)
  show ?thesis
  proof (cases "deref ?v (p_start v) = put_ptr v")
    case False
    have "fifo_inv ?v"
      using inv _ _ _ _
    proof (rule get_adv_inv)
      show "offset_of v (get_ptr v) + n \<le> offset_of v (deref v (p_end v))" using on by simp
      show "ptr_off (get_ptr v) + n \<le> ?s" using g fit by simp
      show "get_lump v \<noteq> end_lump v \<longrightarrow> ptr_off (get_ptr v) + n < ?s" using same by simp
      show "deref ?v (p_start v) = put_ptr v \<longrightarrow> ptr_off (put_ptr v) = 0" using False by simp
    qed
    then have "get_post v n ?v"
      using get_adv_views(1,2,3) [OF inv, of n] on by (simp add: get_post_def F)
    then show ?thesis using step sync False by simp
  next
    case True
    have nh: "p_start v = F_get_ptr"
    proof (rule ccontr)
      assume "p_start v \<noteq> F_get_ptr"
      then have h: "p_start v = F_hold_ptr" using ps by simp
      then have "hold_ptr v = put_ptr v" using True by (simp add: F)
      then have "offset_of v (put_ptr v) \<le> offset_of v (get_ptr v)" using o(1) h by simp
      then show False using on o(2) n by simp
    qed
    then have gp: "put_ptr v = Ptr (get_lump v) (gi + n)"
      using True g by (simp add: F)
    have b: "distinct ?b" "?b \<noteq> []" using inv by (auto simp: fifo_inv_def)
    have "get_lump v = hd ?b" using inv nh by (auto simp: fifo_inv_def)
    moreover have t: "get_lump v = last ?b" using inv gp by (auto simp: fifo_inv_def)
    ultimately have "hd ?b = last ?b" by simp
    then have single: "?b = [get_lump v]"
      using b t by (cases ?b) (auto split: if_splits)
    define r where "r = ?v\<lparr>hold_ptr := Ptr (get_lump v) 0, get_ptr := Ptr (get_lump v) 0,
        end_ptr := Ptr (get_lump v) 0, put_ptr := Ptr (get_lump v) 0\<rparr>"
    have reset: "vio_fifo_reset_ptrs ?v = Some r"
      using t b by (simp add: vio_fifo_reset_ptrs_def ddl_tail_def F r_def)
    have R: "base r = ?b" "size_lump r = ?s" "p_start r = p_start v" "p_end r = p_end v"
      "p_get_end r = p_get_end v" "get_lump r = get_lump v" "end_lump r = end_lump v"
      "spare r = spare v" "freed r = freed v" "nalloc r = nalloc v" "mem r = mem v"
      "put_end r = put_end v" "hold_ptr r = Ptr (get_lump v) 0" "get_ptr r = Ptr (get_lump v) 0"
      "end_ptr r = Ptr (get_lump v) 0" "put_ptr r = Ptr (get_lump v) 0"
      by (simp_all add: r_def F)
    have dr: "\<And>f. f = F_get_ptr \<or> f = F_put_ptr \<or> f = F_end_ptr \<or> f = F_hold_ptr
        \<Longrightarrow> deref r f = Ptr (get_lump v) 0"
      by (auto simp: R)
    have c1: "0 < size_lump r \<and> size_lump r mod 128 = 0"
      using inv unfolding R fifo_inv_def by blast
    have c2: "base r \<noteq> [] \<and> distinct (base r)"
      using inv unfolding R fifo_inv_def by blast
    have c3: "\<forall>x \<in> set (base r). length (mem r x) = size_lump r \<and> x \<le> nalloc r"
      using inv unfolding R fifo_inv_def by blast
    have c4: "(case spare r of None \<Rightarrow> True
        | Some sp \<Rightarrow> sp \<notin> set (base r) \<and> length (mem r sp) = size_lump r \<and> sp \<le> nalloc r)"
      using inv unfolding R fifo_inv_def by blast
    have c5: "own_lump \<in> set (base r) \<or> spare r = Some own_lump"
      using inv unfolding R fifo_inv_def by blast
    have c6: "own_lump \<notin> set (freed r)"
      using inv unfolding R fifo_inv_def by blast
    have c7: "ptr_in (put_ptr r) (last (base r)) (size_lump r)"
      using t by (simp add: R)
    have c8: "put_end r = Ptr (last (base r)) (size_lump r)"
      using inv unfolding R fifo_inv_def by blast
    have c9: "get_lump r \<in> set (base r)"
      using inv unfolding R fifo_inv_def by blast
    have c10: "ptr_in (get_ptr r) (get_lump r) (size_lump r)"
      by (simp add: R)
    have c11: "get_lump r \<noteq> end_lump r \<longrightarrow> ptr_off (get_ptr r) < size_lump r"
      using same by (simp add: R)
    have c12: "end_lump r \<in> set (base r)"
      using inv unfolding R fifo_inv_def by blast
    have c13: "p_end r = F_put_ptr \<and> end_lump r = last (base r) \<or>
        p_end r = F_end_ptr \<and> ptr_in (end_ptr r) (end_lump r) (size_lump r) \<and>
          (end_lump r \<noteq> last (base r) \<longrightarrow> ptr_off (end_ptr r) < size_lump r)"
      using pe same t by (auto simp: R)
    have c14: "p_start r = F_get_ptr \<and> get_lump r = hd (base r) \<or>
        p_start r = F_hold_ptr \<and> ptr_in (hold_ptr r) (hd (base r)) (size_lump r)"
      using nh single by (simp add: R)
    have c15: "p_get_end r = (if get_lump r = end_lump r then p_end r else F_lump_end (get_lump r))"
      using inv unfolding R fifo_inv_def by blast
    have ds: "deref r (p_start r) = Ptr (get_lump v) 0" "deref r (p_end r) = Ptr (get_lump v) 0"
      using pe nh by (auto simp: R)
    have c16: "offset_of r (deref r (p_start r)) \<le> offset_of r (get_ptr r)"
      and c17: "offset_of r (get_ptr r) \<le> offset_of r (deref r (p_end r))"
      and c18: "offset_of r (deref r (p_end r)) \<le> offset_of r (put_ptr r)"
      and c19: "deref r (p_start r) = put_ptr r \<longrightarrow> ptr_off (put_ptr r) = 0"
      unfolding ds by (simp_all add: R(13-16))
    have invr: "fifo_inv r"
      unfolding fifo_inv_def
      using c1 c2 c3 c4 c5 c6 c7 c8 c9 c10 c11 c12 c13 c14 c15 c16 c17 c18 c19
      by blast
    have vr: "visible r = []" "provisional r = []" "held r = []"
      by (simp_all add: visible_def provisional_def held_def ds bytes_between_alt R(14,16))
    have "length (visible v) = n" using length_visible [OF inv] on by simp
    moreover have "provisional v = []"
      using True nh on g by (simp add: provisional_def bytes_between_alt F de lim)
    ultimately have "get_post v n r"
      using invr vr nh by (simp add: get_post_def R)
    then show ?thesis using step sync True reset by simp
  qed
qed

lemma ddl_next_pos:
  assumes "distinct b" "l \<in> set b" "Suc (lump_pos b l) < length b"
  shows "ddl_next b l = Some (b ! Suc (lump_pos b l))"
  using assms
proof (induction b)
  case Nil
  then show ?case by simp
next
  case (Cons x xs)
  show ?case
  proof (cases "x = l")
    case True
    then show ?thesis using Cons.prems by (cases xs) (simp_all add: ddl_head_def)
  next
    case False
    then show ?thesis using Cons by simp
  qed
qed

lemma next_res_fields:
  "base (next_res v nx) = base v"
  "size_lump (next_res v nx) = size_lump v"
  "p_start (next_res v nx) = p_start v"
  "p_end (next_res v nx) = p_end v"
  "hold_ptr (next_res v nx) = hold_ptr v"
  "end_ptr (next_res v nx) = end_ptr v"
  "end_lump (next_res v nx) = end_lump v"
  "put_ptr (next_res v nx) = put_ptr v"
  "put_end (next_res v nx) = put_end v"
  "spare (next_res v nx) = spare v"
  "freed (next_res v nx) = freed v"
  "nalloc (next_res v nx) = nalloc v"
  "mem (next_res v nx) = mem v"
  "get_lump (next_res v nx) = nx"
  "get_ptr (next_res v nx) = Ptr nx 0"
  "p_get_end (next_res v nx) = (if nx = end_lump v then p_end v else F_lump_end nx)"
  by (simp_all add: next_res_def)

lemma step_to_next:
  assumes inv: "fifo_inv v"
    and g: "get_ptr v = Ptr (get_lump v) gi"
    and ne: "get_lump v \<noteq> end_lump v"
    and n: "gi + n = size_lump v" "0 < n"
  obtains nx where "nx \<in> set (base v)" "lump_pos (base v) nx = Suc (lump_pos (base v) (get_lump v))"
    "vio_fifo_step v n =
       (if p_start v \<noteq> F_hold_ptr then vio_fifo_release_upto (next_res v nx) nx
        else Some (next_res v nx))"
proof -
  let ?b = "base v" and ?s = "size_lump v"
  let ?v = "get_adv v n"
  note F = get_adv_fields [of v n]
  have b: "distinct ?b" "?b \<noteq> []" using inv by (auto simp: fifo_inv_def)
  have gl: "get_lump v \<in> set ?b" and el: "end_lump v \<in> set ?b"
    using inv by (simp_all add: fifo_inv_def)
  have "lump_pos ?b (get_lump v) < lump_pos ?b (end_lump v)"
    using inv ne by (rule fifo_inv_lump_order)
  moreover have "lump_pos ?b (end_lump v) < length ?b" using el by (rule lump_pos_less)
  ultimately have lt: "Suc (lump_pos ?b (get_lump v)) < length ?b" by simp
  define nx where "nx = ?b ! Suc (lump_pos ?b (get_lump v))"
  have nxt: "ddl_next ?b (get_lump v) = Some nx"
    unfolding nx_def using b(1) gl lt by (rule ddl_next_pos)
  have nxb: "nx \<in> set ?b" using lt by (simp add: nx_def)
  have nxp: "lump_pos ?b nx = Suc (lump_pos ?b (get_lump v))"
    unfolding nx_def using b(1) lt by (rule lump_pos_nth)
  have pge: "p_get_end v = F_lump_end (get_lump v)" using inv ne by (auto simp: fifo_inv_def)
  have v1: "v\<lparr>get_ptr := ptr_add (get_ptr v) n\<rparr> = ?v" by (simp add: get_adv_def)
  have step: "vio_fifo_step v n = vio_fifo_sync_get ?v"
    unfolding vio_fifo_step_def Let_def v1
    using n(1) by (simp add: F pge g)
  have sg: "vio_fifo_set_get_ptr ?v nx (Ptr nx 0) = next_res v nx"
    by (simp add: vio_fifo_set_get_ptr_def vio_fifo_set_get_end_def next_res_def get_adv_def)
  have "vio_fifo_sync_get ?v =
       (if p_start v \<noteq> F_hold_ptr then vio_fifo_release_upto (next_res v nx) nx
        else Some (next_res v nx))"
    using ne nxt
    by (simp add: vio_fifo_sync_get_def F sg Let_def vio_fifo_have_hold_mark_def next_res_fields)
  then show thesis
    using nxb nxp step by (intro that [of nx]) simp_all
qed

lemma next_res_offsets:
  assumes inv: "fifo_inv v"
    and g: "get_ptr v = Ptr (get_lump v) gi"
    and n: "gi + n = size_lump v"
    and nx: "lump_pos (base v) nx = Suc (lump_pos (base v) (get_lump v))"
  shows "offset_of (next_res v nx) (get_ptr (next_res v nx)) = offset_of (get_adv v n) (get_ptr (get_adv v n))"
    and "\<And>q. offset_of (next_res v nx) q = offset_of (get_adv v n) q"
    and "flat (next_res v nx) = flat (get_adv v n)"
  using g n nx
  by (simp_all add: offset_of_def flat_def next_res_fields get_adv_fields)

lemma next_res_views:
  assumes inv: "fifo_inv v"
    and g: "get_ptr v = Ptr (get_lump v) gi"
    and n: "gi + n = size_lump v"
    and nx: "lump_pos (base v) nx = Suc (lump_pos (base v) (get_lump v))"
  shows "visible (next_res v nx) = visible (get_adv v n)"
    and "provisional (next_res v nx) = provisional (get_adv v n)"
    and "held (next_res v nx) = held (get_adv v n)"
proof -
  note O = next_res_offsets [OF inv g n nx]
  have pe: "p_end v = F_put_ptr \<or> p_end v = F_end_ptr"
    and ps: "p_start v = F_get_ptr \<or> p_start v = F_hold_ptr"
    using inv by (auto simp: fifo_inv_def)
  have de: "deref (next_res v nx) (p_end v) = deref (get_adv v n) (p_end v)"
    using pe by (auto simp: next_res_fields get_adv_fields)
  have ds: "offset_of (get_adv v n) (deref (next_res v nx) (p_start v))
       = offset_of (get_adv v n) (deref (get_adv v n) (p_start v))"
    using ps O(1) by (auto simp: next_res_fields get_adv_fields O(2))
  show "visible (next_res v nx) = visible (get_adv v n)"
    using O(1) by (simp add: visible_def bytes_between_alt O(2,3) de next_res_fields get_adv_fields)
  show "provisional (next_res v nx) = provisional (get_adv v n)"
    by (simp add: provisional_def bytes_between_alt O(2,3) de next_res_fields get_adv_fields)
  show "held (next_res v nx) = held (get_adv v n)"
    using O(1) ds by (simp add: held_def bytes_between_alt O(2,3) next_res_fields get_adv_fields)
qed

lemma next_res_inv_hold:
  assumes inv: "fifo_inv v"
    and g: "get_ptr v = Ptr (get_lump v) gi"
    and ne: "get_lump v \<noteq> end_lump v"
    and n: "gi + n = size_lump v"
    and nx: "nx \<in> set (base v)" "lump_pos (base v) nx = Suc (lump_pos (base v) (get_lump v))"
    and h: "p_start v = F_hold_ptr"
    and on: "offset_of v (get_ptr v) + n \<le> offset_of v (deref v (p_end v))"
  shows "fifo_inv (next_res v nx)"
proof -
  let ?v = "next_res v nx"
  note F = next_res_fields [of v nx]
  note O = next_res_offsets [OF inv g n nx(2)]
  have pe: "p_end v = F_put_ptr \<or> p_end v = F_end_ptr"
    using inv by (auto simp: fifo_inv_def)
  have c1: "0 < size_lump ?v \<and> size_lump ?v mod 128 = 0"
    using inv unfolding F fifo_inv_def by blast
  have c2: "base ?v \<noteq> [] \<and> distinct (base ?v)"
    using inv unfolding F fifo_inv_def by blast
  have c3: "\<forall>x \<in> set (base ?v). length (mem ?v x) = size_lump ?v \<and> x \<le> nalloc ?v"
    using inv unfolding F fifo_inv_def by blast
  have c4: "(case spare ?v of None \<Rightarrow> True
      | Some sp \<Rightarrow> sp \<notin> set (base ?v) \<and> length (mem ?v sp) = size_lump ?v \<and> sp \<le> nalloc ?v)"
    using inv unfolding F fifo_inv_def by blast
  have c5: "own_lump \<in> set (base ?v) \<or> spare ?v = Some own_lump"
    using inv unfolding F fifo_inv_def by blast
  have c6: "own_lump \<notin> set (freed ?v)"
    using inv unfolding F fifo_inv_def by blast
  have c7: "ptr_in (put_ptr ?v) (last (base ?v)) (size_lump ?v)"
    using inv unfolding F fifo_inv_def by blast
  have c8: "put_end ?v = Ptr (last (base ?v)) (size_lump ?v)"
    using inv unfolding F fifo_inv_def by blast
  have c9: "get_lump ?v \<in> set (base ?v)"
    using nx(1) by (simp add: F)
  have c10: "ptr_in (get_ptr ?v) (get_lump ?v) (size_lump ?v)"
    by (simp add: F)
  have c11: "get_lump ?v \<noteq> end_lump ?v \<longrightarrow> ptr_off (get_ptr ?v) < size_lump ?v"
    using inv by (simp add: F fifo_inv_def)
  have c12: "end_lump ?v \<in> set (base ?v)"
    using inv unfolding F fifo_inv_def by blast
  have c13: "p_end ?v = F_put_ptr \<and> end_lump ?v = last (base ?v) \<or>
      p_end ?v = F_end_ptr \<and> ptr_in (end_ptr ?v) (end_lump ?v) (size_lump ?v) \<and>
        (end_lump ?v \<noteq> last (base ?v) \<longrightarrow> ptr_off (end_ptr ?v) < size_lump ?v)"
    using inv unfolding F fifo_inv_def by blast
  have c14: "p_start ?v = F_get_ptr \<and> get_lump ?v = hd (base ?v) \<or>
      p_start ?v = F_hold_ptr \<and> ptr_in (hold_ptr ?v) (hd (base ?v)) (size_lump ?v)"
    using inv h by (simp add: F fifo_inv_def)
  have c15: "p_get_end ?v = (if get_lump ?v = end_lump ?v then p_end ?v else F_lump_end (get_lump ?v))"
    unfolding F by simp
  have o: "offset_of v (deref v (p_start v)) \<le> offset_of v (get_ptr v)"
    "offset_of v (deref v (p_end v)) \<le> offset_of v (put_ptr v)"
    using inv by (simp_all add: fifo_inv_def)
  have oc: "\<And>q. offset_of ?v q = offset_of v q"
    by (simp add: offset_of_def F)
  have og: "offset_of v (get_ptr ?v) = offset_of v (get_ptr v) + n"
    using O(1) get_adv_views(5) [OF inv on] by (simp add: oc)
  have de: "deref ?v (p_end v) = deref v (p_end v)"
    using pe by (auto simp: F)
  have c16: "offset_of ?v (deref ?v (p_start ?v)) \<le> offset_of ?v (get_ptr ?v)"
    using h o(1) og by (simp add: oc F(3,5))
  have c17: "offset_of ?v (get_ptr ?v) \<le> offset_of ?v (deref ?v (p_end ?v))"
    using on og by (simp add: oc F(4) de)
  have c18: "offset_of ?v (deref ?v (p_end ?v)) \<le> offset_of ?v (put_ptr ?v)"
    using o(2) by (simp add: oc F(4,8) de)
  have c19: "deref ?v (p_start ?v) = put_ptr ?v \<longrightarrow> ptr_off (put_ptr ?v) = 0"
    using inv h by (simp add: F(3,5,8) fifo_inv_def)
  show ?thesis
    unfolding fifo_inv_def
    using c1 c2 c3 c4 c5 c6 c7 c8 c9 c10 c11 c12 c13 c14 c15 c16 c17 c18 c19
    by blast
qed

lemma release_lump_eq:
  "l \<noteq> get_lump v \<Longrightarrow> l \<noteq> end_lump v \<Longrightarrow>
   vio_fifo_release_lump v (Some l) = Some (release_res v l)"
  by (simp add: vio_fifo_release_lump_def release_res_def split: option.splits)

lemma release_res_fields:
  "base (release_res v l) = base v"
  "size_lump (release_res v l) = size_lump v"
  "p_start (release_res v l) = p_start v"
  "p_end (release_res v l) = p_end v"
  "p_get_end (release_res v l) = p_get_end v"
  "hold_ptr (release_res v l) = hold_ptr v"
  "get_ptr (release_res v l) = get_ptr v"
  "get_lump (release_res v l) = get_lump v"
  "end_ptr (release_res v l) = end_ptr v"
  "end_lump (release_res v l) = end_lump v"
  "put_ptr (release_res v l) = put_ptr v"
  "put_end (release_res v l) = put_end v"
  "nalloc (release_res v l) = nalloc v"
  "mem (release_res v l) = mem v"
  by (simp_all add: release_res_def XFREE_def split: option.splits)

lemma release_res_spare:
  assumes "case spare v of None \<Rightarrow> True
      | Some sp \<Rightarrow> sp \<notin> set b \<and> length (mem v sp) = s \<and> sp \<le> nalloc v"
    and "l \<notin> set b'" "set b' \<subseteq> set b" "length (mem v l) = s" "l \<le> nalloc v"
    and "own_lump \<in> set b' \<or> own_lump = l \<or> spare v = Some own_lump"
    and "own_lump \<notin> set (freed v)" "spare v \<noteq> Some l"
  shows "case spare (release_res v l) of None \<Rightarrow> True
      | Some sp \<Rightarrow> sp \<notin> set b' \<and> length (mem (release_res v l) sp) = s
          \<and> sp \<le> nalloc (release_res v l)"
    and "own_lump \<in> set b' \<or> spare (release_res v l) = Some own_lump"
    and "own_lump \<notin> set (freed (release_res v l))"
  using assms
  by (auto simp: release_res_def XFREE_def split: option.splits)

lemma release_upto_pop:
  assumes "base w = gl # nx # rest" "gl \<noteq> nx" "get_lump w \<noteq> gl" "end_lump w \<noteq> gl"
  shows "vio_fifo_release_upto w nx = Some (release_res (w\<lparr>base := nx # rest\<rparr>) gl)"
proof -
  have 1: "vio_fifo_release_lump (w\<lparr>base := nx # rest\<rparr>) (Some gl)
      = Some (release_res (w\<lparr>base := nx # rest\<rparr>) gl)"
    using assms(3,4) by (intro release_lump_eq) simp_all
  have 2: "vio_fifo_release_upto (release_res (w\<lparr>base := nx # rest\<rparr>) gl) nx
      = Some (release_res (w\<lparr>base := nx # rest\<rparr>) gl)"
    by (subst vio_fifo_release_upto.simps) (simp add: release_res_fields ddl_head_def)
  show ?thesis
    using assms(1,2) 1 2
    by (subst vio_fifo_release_upto.simps) (simp add: ddl_head_def ddl_pop_def)
qed

lemma pop_res_fields:
  "base (pop_res v nx) = tl (base v)"
  "size_lump (pop_res v nx) = size_lump v"
  "p_start (pop_res v nx) = p_start v"
  "p_end (pop_res v nx) = p_end v"
  "hold_ptr (pop_res v nx) = hold_ptr v"
  "end_ptr (pop_res v nx) = end_ptr v"
  "end_lump (pop_res v nx) = end_lump v"
  "put_ptr (pop_res v nx) = put_ptr v"
  "put_end (pop_res v nx) = put_end v"
  "nalloc (pop_res v nx) = nalloc v"
  "mem (pop_res v nx) = mem v"
  "get_lump (pop_res v nx) = nx"
  "get_ptr (pop_res v nx) = Ptr nx 0"
  "p_get_end (pop_res v nx) = (if nx = end_lump v then p_end v else F_lump_end nx)"
  by (simp_all add: pop_res_def release_res_fields next_res_fields)

lemma lump_pos_tl:
  "b \<noteq> [] \<Longrightarrow> x \<noteq> hd b \<Longrightarrow> lump_pos b x = Suc (lump_pos (tl b) x)"
  by (cases b) auto

lemma step_pop:
  assumes inv: "fifo_inv v"
    and g: "get_ptr v = Ptr (get_lump v) gi"
    and ne: "get_lump v \<noteq> end_lump v"
    and n: "gi + n = size_lump v"
    and nx: "nx \<in> set (base v)" "lump_pos (base v) nx = Suc (lump_pos (base v) (get_lump v))"
    and nh: "p_start v = F_get_ptr"
    and on: "offset_of v (get_ptr v) + n \<le> offset_of v (deref v (p_end v))"
  shows "vio_fifo_release_upto (next_res v nx) nx = Some (pop_res v nx)"
    and "fifo_inv (pop_res v nx)"
    and "visible (pop_res v nx) = visible (next_res v nx)"
    and "provisional (pop_res v nx) = provisional (next_res v nx)"
    and "held (pop_res v nx) = []"
proof -
  let ?w = "next_res v nx" and ?v = "pop_res v nx"
  let ?b = "base v" and ?s = "size_lump v" and ?gl = "get_lump v"
  note F = pop_res_fields [of v nx]
  note W = next_res_fields [of v nx]
  have b: "distinct ?b" "?b \<noteq> []" using inv by (auto simp: fifo_inv_def)
  have hd: "?gl = hd ?b" using inv nh by (auto simp: fifo_inv_def)
  then have p0: "lump_pos ?b ?gl = 0" using b by (simp add: lump_pos_hd)
  then have p1: "lump_pos ?b nx = 1" using nx(2) by simp
  have nxne: "nx \<noteq> ?gl" using p0 p1 by auto
  have "?b ! 1 = nx" using nth_lump_pos [OF nx(1)] p1 by simp
  moreover have "1 < length ?b" using lump_pos_less [OF nx(1)] p1 by simp
  ultimately obtain rest where bs: "?b = ?gl # nx # rest"
    using hd b by (cases ?b; cases "tl ?b") auto
  have tl: "tl ?b = nx # rest" using bs by simp
  have el: "end_lump v \<in> set (tl ?b)"
    using inv ne bs by (auto simp: fifo_inv_def)
  have last: "last (tl ?b) = last ?b" using bs by simp
  have pe: "p_end v = F_put_ptr \<or> p_end v = F_end_ptr"
    using inv by (auto simp: fifo_inv_def)
  have "vio_fifo_release_upto ?w nx = Some (release_res (?w\<lparr>base := nx # rest\<rparr>) ?gl)"
  proof (rule release_upto_pop)
    show "base ?w = ?gl # nx # rest" using bs by (simp add: W)
    show "?gl \<noteq> nx" using nxne by simp
    show "get_lump ?w \<noteq> ?gl" using nxne by (simp add: W)
    show "end_lump ?w \<noteq> ?gl" using ne by (simp add: W)
  qed
  then show "vio_fifo_release_upto ?w nx = Some ?v"
    using bs by (simp add: pop_res_def)
  have len: "\<forall>x\<in>set ?b. length (mem v x) = ?s \<and> x \<le> nalloc v"
    using inv unfolding fifo_inv_def by blast
  have sub: "set (tl ?b) \<subseteq> set ?b" using bs by auto
  have glt: "?gl \<notin> set (tl ?b)" using b bs by auto
  have sp: "case spare v of None \<Rightarrow> True
      | Some sp \<Rightarrow> sp \<notin> set ?b \<and> length (mem v sp) = ?s \<and> sp \<le> nalloc v"
    using inv unfolding fifo_inv_def by blast
  have own: "own_lump \<in> set (tl ?b) \<or> own_lump = ?gl \<or> spare v = Some own_lump"
    using inv bs by (auto simp: fifo_inv_def)
  have nf: "own_lump \<notin> set (freed v)" using inv unfolding fifo_inv_def by blast
  have spne: "spare v \<noteq> Some ?gl" using sp bs by (auto split: option.splits)
  let ?u = "?w\<lparr>base := tl ?b\<rparr>"
  have U: "spare ?u = spare v" "mem ?u = mem v" "nalloc ?u = nalloc v" "freed ?u = freed v"
    by (simp_all add: W)
  have gll: "length (mem v ?gl) = ?s" "?gl \<le> nalloc v" using len bs by auto
  have A1: "case spare ?u of None \<Rightarrow> True
      | Some sp \<Rightarrow> sp \<notin> set ?b \<and> length (mem ?u sp) = ?s \<and> sp \<le> nalloc ?u"
    unfolding U by (rule sp)
  have A4: "length (mem ?u ?gl) = ?s" and A5: "?gl \<le> nalloc ?u"
    and A6: "own_lump \<in> set (tl ?b) \<or> own_lump = ?gl \<or> spare ?u = Some own_lump"
    and A7: "own_lump \<notin> set (freed ?u)" and A8: "spare ?u \<noteq> Some ?gl"
    using gll own nf spne by (simp_all add: U)
  note R = release_res_spare [OF A1 glt sub A4 A5 A6 A7 A8]
  have vu: "?v = release_res ?u ?gl" using hd by (simp add: pop_res_def)
  have c1: "0 < size_lump ?v \<and> size_lump ?v mod 128 = 0"
    using inv unfolding F fifo_inv_def by blast
  have c2: "base ?v \<noteq> [] \<and> distinct (base ?v)"
    using b bs by (auto simp: F)
  have c3: "\<forall>x \<in> set (base ?v). length (mem ?v x) = size_lump ?v \<and> x \<le> nalloc ?v"
    using len sub unfolding F by blast
  have c4: "(case spare ?v of None \<Rightarrow> True
      | Some sp \<Rightarrow> sp \<notin> set (base ?v) \<and> length (mem ?v sp) = size_lump ?v \<and> sp \<le> nalloc ?v)"
    using R(1) unfolding vu [symmetric] F by simp
  have c5: "own_lump \<in> set (base ?v) \<or> spare ?v = Some own_lump"
    using R(2) unfolding vu [symmetric] F by simp
  have c6: "own_lump \<notin> set (freed ?v)"
    using R(3) unfolding vu [symmetric] by simp
  have c7: "ptr_in (put_ptr ?v) (last (base ?v)) (size_lump ?v)"
    using inv last unfolding F fifo_inv_def by simp
  have c8: "put_end ?v = Ptr (last (base ?v)) (size_lump ?v)"
    using inv last unfolding F fifo_inv_def by simp
  have c9: "get_lump ?v \<in> set (base ?v)"
    using tl by (simp add: F)
  have c10: "ptr_in (get_ptr ?v) (get_lump ?v) (size_lump ?v)"
    by (simp add: F)
  have c11: "get_lump ?v \<noteq> end_lump ?v \<longrightarrow> ptr_off (get_ptr ?v) < size_lump ?v"
    using inv by (simp add: F fifo_inv_def)
  have c12: "end_lump ?v \<in> set (base ?v)"
    using el by (simp add: F)
  have c13: "p_end ?v = F_put_ptr \<and> end_lump ?v = last (base ?v) \<or>
      p_end ?v = F_end_ptr \<and> ptr_in (end_ptr ?v) (end_lump ?v) (size_lump ?v) \<and>
        (end_lump ?v \<noteq> last (base ?v) \<longrightarrow> ptr_off (end_ptr ?v) < size_lump ?v)"
    using inv unfolding F last fifo_inv_def by blast
  have c14: "p_start ?v = F_get_ptr \<and> get_lump ?v = hd (base ?v) \<or>
      p_start ?v = F_hold_ptr \<and> ptr_in (hold_ptr ?v) (hd (base ?v)) (size_lump ?v)"
    using nh tl by (simp add: F)
  have c15: "p_get_end ?v = (if get_lump ?v = end_lump ?v then p_end ?v else F_lump_end (get_lump ?v))"
    unfolding F by simp
  have sh: "offset_of ?w (Ptr x i) = ?s + offset_of ?v (Ptr x i)" if "x \<in> set (tl ?b)" for x i
  proof -
    have "x \<noteq> hd ?b" using that glt hd by auto
    then have "lump_pos ?b x = Suc (lump_pos (tl ?b) x)" using b(2) by (intro lump_pos_tl)
    then show ?thesis by (simp add: offset_of_def F W)
  qed
  obtain ei where e: "deref v (p_end v) = Ptr (end_lump v) ei"
    using inv by (rule fifo_inv_end)
  obtain pi where p: "put_ptr v = Ptr (last ?b) pi"
    using inv by (rule fifo_inv_put)
  have lb: "last ?b \<in> set (tl ?b)" using bs by auto
  have de: "deref ?v (p_end v) = deref v (p_end v)" "deref ?w (p_end v) = deref v (p_end v)"
    using pe by (auto simp: F W)
  have sg: "offset_of ?w (get_ptr ?w) = ?s + offset_of ?v (get_ptr ?v)"
    using sh [of nx 0] tl by (simp add: F W)
  have se: "offset_of ?w (deref v (p_end v)) = ?s + offset_of ?v (deref v (p_end v))"
    using sh [OF el] e by simp
  have sp': "offset_of ?w (put_ptr v) = ?s + offset_of ?v (put_ptr v)"
    using sh [OF lb] p by simp
  have ow: "\<And>q. offset_of ?w q = offset_of v q" by (simp add: offset_of_def W)
  have o: "offset_of v (deref v (p_end v)) \<le> offset_of v (put_ptr v)"
    using inv by (simp add: fifo_inv_def)
  have gw: "offset_of ?w (get_ptr ?w) = offset_of v (get_ptr v) + n"
    using next_res_offsets(1) [OF inv g n nx(2)] get_adv_views(5) [OF inv on] by simp
  have c16: "offset_of ?v (deref ?v (p_start ?v)) \<le> offset_of ?v (get_ptr ?v)"
    using nh by (simp add: F(3))
  have c17: "offset_of ?v (get_ptr ?v) \<le> offset_of ?v (deref ?v (p_end ?v))"
    using on gw sg se by (simp add: F(4) de ow)
  have c18: "offset_of ?v (deref ?v (p_end ?v)) \<le> offset_of ?v (put_ptr ?v)"
    using o se sp' by (simp add: F(4,8) de ow)
  have c19: "deref ?v (p_start ?v) = put_ptr ?v \<longrightarrow> ptr_off (put_ptr ?v) = 0"
  proof
    assume "deref ?v (p_start ?v) = put_ptr ?v"
    then have "put_ptr ?v = Ptr nx 0" using nh by (simp add: F(3,13))
    then show "ptr_off (put_ptr ?v) = 0" by simp
  qed
  show "fifo_inv ?v"
    unfolding fifo_inv_def
    using c1 c2 c3 c4 c5 c6 c7 c8 c9 c10 c11 c12 c13 c14 c15 c16 c17 c18 c19
    by blast
  have fl: "drop ?s (flat ?w) = flat ?v"
    using bs gll(1) by (simp add: flat_def F W)
  have bb: "\<And>p q. offset_of ?w p = ?s + offset_of ?v p \<Longrightarrow> offset_of ?w q = ?s + offset_of ?v q
      \<Longrightarrow> bytes_between ?w p q = bytes_between ?v p q"
    unfolding bytes_between_def
    by (rule slice_shiftI [where k = ?s])
       (use fl in \<open>simp_all add: offset_of_def flat_def F(1,2,11) W(1,2,13)\<close>)
  have sg': "offset_of ?w (Ptr nx 0) = ?s + offset_of ?v (Ptr nx 0)"
    using sg by (simp add: F(13) W(15))
  show "visible ?v = visible ?w"
    using bb [OF sg' se] by (simp add: visible_def F(4,13) W(4,15) de)
  show "provisional ?v = provisional ?w"
    using bb [OF se sp'] by (simp add: provisional_def F(4,8) W(4,8) de)
  show "held ?v = []"
    using nh by (simp add: held_def F(3) bytes_between_alt)
qed

lemma step_ok:
  assumes inv: "fifo_inv v"
    and g: "get_ptr v = Ptr (get_lump v) gi"
    and lim: "deref v (p_get_end v) = Ptr (get_lump v) (gi + n)" "gi + n \<le> size_lump v"
    and same: "get_lump v = end_lump v \<longrightarrow> deref v (p_end v) = Ptr (get_lump v) (gi + n)"
    and ne: "get_lump v \<noteq> end_lump v \<longrightarrow> gi + n = size_lump v \<and> 0 < n"
    and on: "offset_of v (get_ptr v) + n \<le> offset_of v (deref v (p_end v))"
    and k: "0 < k" "k \<le> n"
  shows "\<exists>v'. vio_fifo_step v k = Some v' \<and> get_post v k v'"
proof (cases "k < n")
  case True
  show ?thesis
    using step_inside [OF inv g lim on k(1) True] by blast
next
  case False
  then have kn: "k = n" using k(2) by simp
  show ?thesis
  proof (cases "get_lump v = end_lump v")
    case True
    then have "deref v (p_end v) = Ptr (get_lump v) (gi + n)" using same by simp
    then show ?thesis
      using step_end_lump [OF inv g True _ k(1) [unfolded kn]] kn by simp
  next
    case False
    then have n: "gi + n = size_lump v" "0 < n" using ne by simp_all
    obtain nx where nx: "nx \<in> set (base v)"
      "lump_pos (base v) nx = Suc (lump_pos (base v) (get_lump v))"
      and st: "vio_fifo_step v n =
       (if p_start v \<noteq> F_hold_ptr then vio_fifo_release_upto (next_res v nx) nx
        else Some (next_res v nx))"
      using inv g False n by (rule step_to_next)
    note NV = next_res_views [OF inv g n(1) nx(2)]
    note AV = get_adv_views(1,2,3) [OF inv on]
    show ?thesis
    proof (cases "p_start v = F_hold_ptr")
      case True
      have "fifo_inv (next_res v nx)"
        using inv g False n(1) nx True on by (rule next_res_inv_hold)
      then have "get_post v n (next_res v nx)"
        using NV AV True by (simp add: get_post_def next_res_fields)
      then show ?thesis using st True kn by simp
    next
      case False
      then have nh: "p_start v = F_get_ptr" using inv by (auto simp: fifo_inv_def)
      note P = step_pop [OF inv g \<open>get_lump v \<noteq> end_lump v\<close> n(1) nx nh on]
      have "get_post v n (pop_res v nx)"
        using P(2-5) NV AV nh by (simp add: get_post_def pop_res_fields)
      then show ?thesis using st nh kn P(1) by simp
    qed
  qed
qed

lemma held_no_mark: "p_start v = F_get_ptr \<Longrightarrow> held v = []"
  by (simp add: held_def bytes_between_alt)

lemma get_post_0: "fifo_inv v \<Longrightarrow> get_post v 0 v"
  by (auto simp: get_post_def fifo_inv_def held_no_mark)

lemma get_bytes_ok:
  assumes "fifo_inv v"
  shows "\<exists>v'. vio_fifo_get_bytes v n = Some (v', take n (visible v)) \<and> get_post v n v'"
  using assms
proof (induction n arbitrary: v rule: less_induct)
  case (less n)
  note inv = less.prems
  show ?case
  proof (cases "n = 0")
    case True
    then have "vio_fifo_get_bytes v n = Some (v, [])"
      by (subst vio_fifo_get_bytes.simps) simp
    then show ?thesis using True get_post_0 [OF inv] by simp
  next
    case False
    obtain gi m where g: "get_ptr v = Ptr (get_lump v) gi"
      and lim: "deref v (p_get_end v) = Ptr (get_lump v) (gi + m)" "gi + m \<le> size_lump v"
      and same: "get_lump v = end_lump v \<longrightarrow> deref v (p_end v) = Ptr (get_lump v) (gi + m)"
      and ne: "get_lump v \<noteq> end_lump v \<longrightarrow> gi + m = size_lump v \<and> 0 < m"
      and on: "offset_of v (get_ptr v) + m \<le> offset_of v (deref v (p_end v))"
      using inv by (rule get_limit)
    have have_m: "ptr_diff (deref v (p_get_end v)) (get_ptr v) = Some m"
      using g lim(1) by simp
    show ?thesis
    proof (cases "m = 0")
      case True
      then have "get_lump v = end_lump v" using ne by auto
      then have "deref v (p_end v) = get_ptr v" using same g True by simp
      then have vis: "visible v = []" by (simp add: visible_def bytes_between_alt)
      have "vio_fifo_get_bytes v n = Some (v, [])"
        using False True have_m by (subst vio_fifo_get_bytes.simps) simp
      moreover have "get_post v n v"
        using get_post_0 [OF inv] vis by (auto simp: get_post_def split: if_splits)
      ultimately show ?thesis using vis by simp
    next
      case m0: False
      define tk where "tk = (if m > n then n else m)"
      have tk: "0 < tk" "tk \<le> m" "tk \<le> n" using False m0 by (simp_all add: tk_def)
      have otk: "offset_of v (get_ptr v) + tk \<le> offset_of v (deref v (p_end v))"
        using on tk(2) by simp
      have cp: "memcpy_out v (get_ptr v) tk = Some (take tk (visible v))"
        using get_adv_views(4) [OF inv otk] g lim(2) tk(2) by simp
      obtain v1 where st: "vio_fifo_step v tk = Some v1" and p1: "get_post v tk v1"
        using step_ok [OF inv g lim same ne on tk(1,2)] by blast
      have inv1: "fifo_inv v1" using p1 by (simp add: get_post_def)
      have "n - tk < n" using tk(1) False by simp
      then obtain v2 where r: "vio_fifo_get_bytes v1 (n - tk) = Some (v2, take (n - tk) (visible v1))"
        and p2: "get_post v1 (n - tk) v2"
        using less.IH inv1 by blast
      have unf: "vio_fifo_get_bytes v n
          = Some (v2, take tk (visible v) @ take (n - tk) (visible v1))"
        using False m0 have_m cp st r
        by (subst vio_fifo_get_bytes.simps) (simp add: tk_def [symmetric] Let_def)
      have v1vis: "visible v1 = drop tk (visible v)" using p1 by (simp add: get_post_def)
      have cat: "take tk (visible v) @ take (n - tk) (drop tk (visible v)) = take n (visible v)"
        using tk(3) by (metis le_add_diff_inverse take_add)
      have "get_post v n v2"
        using p1 p2 tk(3) cat by (auto simp: get_post_def)
      then show ?thesis using unf v1vis cat by simp
    qed
  qed
qed

lemma ulen_mod: "ulen n = n mod 4294967296"
  by (simp add: ulen_def nat_mod_distrib)

lemma ulen_round: "ulen (ulen n div 128 * 128) = ulen n div 128 * 128"
proof -
  have "ulen n div 128 * 128 \<le> ulen n" by simp
  moreover have "ulen n < 4294967296" by (simp add: ulen_mod)
  ultimately have "ulen n div 128 * 128 < 4294967296" by (rule le_less_trans)
  then show ?thesis by (simp add: ulen_mod)
qed

lemma new_size_eq:
  "size_lump (vio_fifo_new sz) =
     ulen (127 + (if ulen sz = 0 then VIO_FIFO_DEFAULT_LUMP_SIZE else ulen sz)) div 128 * 128"
  by (simp add: vio_fifo_new_def Let_def ulen_round)

lemma new_size: "size_lump (vio_fifo_new sz) mod 128 = 0"
  unfolding new_size_eq by simp

text \<open>The lump size is 0 exactly for the 127 arguments above \<open>2 ^ 32 - 128\<close>.\<close>

lemma new_size_pos: "0 < size_lump (vio_fifo_new sz) \<longleftrightarrow> ulen sz \<le> 4294967168"
proof -
  have b: "ulen sz < 4294967296" by (simp add: ulen_mod)
  show ?thesis
  proof (cases "ulen sz = 0")
    case True
    have "ulen 4223 = 4223" by (simp add: ulen_mod)
    then show ?thesis using True
      by (simp add: new_size_eq VIO_FIFO_DEFAULT_LUMP_SIZE_def)
  next
    case False
    show ?thesis
    proof (cases "ulen sz \<le> 4294967168")
      case True
      then have "ulen (127 + ulen sz) = 127 + ulen sz" by (simp add: ulen_mod)
      moreover have "0 < (127 + ulen sz) div 128" using False by (simp add: div_greater_zero_iff)
      ultimately show ?thesis using True False
        by (simp add: new_size_eq)
    next
      case False
      then have "4294967296 \<le> 127 + ulen sz" by simp
      then have "(127 + ulen sz) mod 4294967296 = (127 + ulen sz - 4294967296) mod 4294967296"
        by (rule le_mod_geq)
      also have "\<dots> = 127 + ulen sz - 4294967296" using b by simp
      finally have "ulen (127 + ulen sz) = 127 + ulen sz - 4294967296"
        by (simp add: ulen_mod)
      moreover have "(127 + ulen sz - 4294967296) div 128 = 0" using b by simp
      ultimately show ?thesis using False b
        by (simp add: new_size_eq)
    qed
  qed
qed

lemma get_bytes_empty:
  assumes inv: "fifo_inv v" and vis: "visible v = []"
  shows "vio_fifo_get_bytes v n = Some (v, [])"
proof (cases "n = 0")
  case True
  then show ?thesis by (subst vio_fifo_get_bytes.simps) simp
next
  case False
  obtain gi m where g: "get_ptr v = Ptr (get_lump v) gi"
    and lim: "deref v (p_get_end v) = Ptr (get_lump v) (gi + m)"
    and on: "offset_of v (get_ptr v) + m \<le> offset_of v (deref v (p_end v))"
    using inv by (rule get_limit)
  have "length (visible v) = 0" using vis by simp
  then have "m = 0" using on length_visible [OF inv] by simp
  then have "ptr_diff (deref v (p_get_end v)) (get_ptr v) = Some 0"
    using g lim by simp
  then show ?thesis using False by (subst vio_fifo_get_bytes.simps) simp
qed

lemma new_inv:
  assumes "0 < size_lump (vio_fifo_new sz)"
  shows "fifo_inv (vio_fifo_new sz)"
  using assms new_size [of sz]
  by (simp add: fifo_inv_def vio_fifo_new_def Let_def ddl_append_def offset_of_def own_lump_def)

lemma new_inv_128: "fifo_inv (vio_fifo_new 128)"
  by (rule new_inv) (simp add: new_size_pos ulen_mod)

lemma new_views:
  "visible (vio_fifo_new sz) = []" "provisional (vio_fifo_new sz) = []" "held (vio_fifo_new sz) = []"
  "p_end (vio_fifo_new sz) = F_put_ptr" "p_start (vio_fifo_new sz) = F_get_ptr"
  by (simp_all add: visible_def provisional_def held_def bytes_between_alt vio_fifo_new_def Let_def)





lemma mark_res_fields:
  "base (mark_res v pe ep) = base v"
  "size_lump (mark_res v pe ep) = size_lump v"
  "p_start (mark_res v pe ep) = p_start v"
  "p_end (mark_res v pe ep) = pe"
  "hold_ptr (mark_res v pe ep) = hold_ptr v"
  "get_ptr (mark_res v pe ep) = get_ptr v"
  "get_lump (mark_res v pe ep) = get_lump v"
  "end_ptr (mark_res v pe ep) = ep"
  "end_lump (mark_res v pe ep) = last (base v)"
  "put_ptr (mark_res v pe ep) = put_ptr v"
  "put_end (mark_res v pe ep) = put_end v"
  "spare (mark_res v pe ep) = spare v"
  "freed (mark_res v pe ep) = freed v"
  "nalloc (mark_res v pe ep) = nalloc v"
  "mem (mark_res v pe ep) = mem v"
  "p_get_end (mark_res v pe ep) = (if get_lump v = last (base v) then pe else F_lump_end (get_lump v))"
  by (simp_all add: mark_res_def vio_fifo_set_get_end_def)

lemma drop_take_split:
  "g \<le> e \<Longrightarrow> e \<le> p \<Longrightarrow> p \<le> length xs \<Longrightarrow>
   drop g (take p xs) = drop g (take e xs) @ drop e (take p xs)"
  by (metis (no_types, lifting) append_take_drop_id drop_append drop_take le_add_diff_inverse
      length_take min.absorb2 order_trans take_add diff_is_0_eq drop_0)

lemma mark_res_ok:
  assumes inv: "fifo_inv v"
    and pe: "pe = F_put_ptr \<or> pe = F_end_ptr \<and> ep = put_ptr v"
  shows "mark_post v pe (mark_res v pe ep)"
proof -
  let ?v = "mark_res v pe ep"
  let ?b = "base v" and ?s = "size_lump v"
  note F = mark_res_fields [of v pe ep]
  obtain gi where g: "get_ptr v = Ptr (get_lump v) gi" "gi \<le> ?s"
    "get_lump v \<noteq> end_lump v \<longrightarrow> gi < ?s" using inv by (rule fifo_inv_get)
  obtain ei where e: "deref v (p_end v) = Ptr (end_lump v) ei" "ei \<le> ?s"
    "end_lump v \<noteq> last ?b \<longrightarrow> ei < ?s" using inv by (rule fifo_inv_end)
  obtain pi where p: "put_ptr v = Ptr (last ?b) pi" "pi \<le> ?s" using inv by (rule fifo_inv_put)
  have ps: "p_start v = F_get_ptr \<or> p_start v = F_hold_ptr"
    using inv by (auto simp: fifo_inv_def)
  have o: "offset_of v (deref v (p_start v)) \<le> offset_of v (get_ptr v)"
    "offset_of v (get_ptr v) \<le> offset_of v (deref v (p_end v))"
    "offset_of v (deref v (p_end v)) \<le> offset_of v (put_ptr v)"
    using inv by (simp_all add: fifo_inv_def)
  have de: "deref ?v pe = put_ptr v"
    using pe by (auto simp: mark_res_def vio_fifo_set_get_end_def)
  have ds: "deref ?v (p_start v) = deref v (p_start v)" using ps by (auto simp: F)
  have oc: "\<And>q. offset_of ?v q = offset_of v q" by (simp add: offset_of_def F)
  have fl: "flat ?v = flat v" by (simp add: flat_def F)
  have c1: "0 < size_lump ?v \<and> size_lump ?v mod 128 = 0"
    using inv unfolding F fifo_inv_def by blast
  have c2: "base ?v \<noteq> [] \<and> distinct (base ?v)"
    using inv unfolding F fifo_inv_def by blast
  have c3: "\<forall>x \<in> set (base ?v). length (mem ?v x) = size_lump ?v \<and> x \<le> nalloc ?v"
    using inv unfolding F fifo_inv_def by blast
  have c4: "(case spare ?v of None \<Rightarrow> True
      | Some sp \<Rightarrow> sp \<notin> set (base ?v) \<and> length (mem ?v sp) = size_lump ?v \<and> sp \<le> nalloc ?v)"
    using inv unfolding F fifo_inv_def by blast
  have c5: "own_lump \<in> set (base ?v) \<or> spare ?v = Some own_lump"
    using inv unfolding F fifo_inv_def by blast
  have c6: "own_lump \<notin> set (freed ?v)"
    using inv unfolding F fifo_inv_def by blast
  have c7: "ptr_in (put_ptr ?v) (last (base ?v)) (size_lump ?v)"
    using inv unfolding F fifo_inv_def by blast
  have c8: "put_end ?v = Ptr (last (base ?v)) (size_lump ?v)"
    using inv unfolding F fifo_inv_def by blast
  have c9: "get_lump ?v \<in> set (base ?v)"
    using inv unfolding F fifo_inv_def by blast
  have c10: "ptr_in (get_ptr ?v) (get_lump ?v) (size_lump ?v)"
    using inv unfolding F fifo_inv_def by blast
  have "gi < ?s" if ne: "get_lump v \<noteq> last ?b"
  proof (cases "get_lump v = end_lump v")
    case True
    then have "ei < ?s" using ne e(3) by simp
    moreover have "gi \<le> ei" using o(2) g(1) e(1) True by (simp add: offset_of_def)
    ultimately show ?thesis by simp
  next
    case False
    then show ?thesis using g(3) by simp
  qed
  then have c11: "get_lump ?v \<noteq> end_lump ?v \<longrightarrow> ptr_off (get_ptr ?v) < size_lump ?v"
    using g(1) by (simp add: F)
  have c12: "end_lump ?v \<in> set (base ?v)"
    using c2 by (simp add: F)
  have c13: "p_end ?v = F_put_ptr \<and> end_lump ?v = last (base ?v) \<or>
      p_end ?v = F_end_ptr \<and> ptr_in (end_ptr ?v) (end_lump ?v) (size_lump ?v) \<and>
        (end_lump ?v \<noteq> last (base ?v) \<longrightarrow> ptr_off (end_ptr ?v) < size_lump ?v)"
    using pe p by (auto simp: F)
  have c14: "p_start ?v = F_get_ptr \<and> get_lump ?v = hd (base ?v) \<or>
      p_start ?v = F_hold_ptr \<and> ptr_in (hold_ptr ?v) (hd (base ?v)) (size_lump ?v)"
    using inv unfolding F fifo_inv_def by blast
  have c15: "p_get_end ?v = (if get_lump ?v = end_lump ?v then p_end ?v else F_lump_end (get_lump ?v))"
    unfolding F by simp
  have c16: "offset_of ?v (deref ?v (p_start ?v)) \<le> offset_of ?v (get_ptr ?v)"
    using o(1) by (simp add: F(3,6) ds oc)
  have c17: "offset_of ?v (get_ptr ?v) \<le> offset_of ?v (deref ?v (p_end ?v))"
    using o(2,3) by (simp add: F(4,6) de oc)
  have c18: "offset_of ?v (deref ?v (p_end ?v)) \<le> offset_of ?v (put_ptr ?v)"
    by (simp add: F(4,10) de)
  have c19: "deref ?v (p_start ?v) = put_ptr ?v \<longrightarrow> ptr_off (put_ptr ?v) = 0"
    using inv unfolding F(3,10) ds fifo_inv_def by blast
  have invr: "fifo_inv ?v"
    unfolding fifo_inv_def
    using c1 c2 c3 c4 c5 c6 c7 c8 c9 c10 c11 c12 c13 c14 c15 c16 c17 c18 c19
    by blast
  have le: "offset_of v (put_ptr v) \<le> length (flat v)"
    using fifo_inv_offset_le(2) [OF inv, of F_put_ptr] by simp
  have h: "held ?v = held v"
    by (simp add: held_def bytes_between_alt F(3,6) ds oc fl)
  have vis: "visible ?v = visible v @ provisional v"
    using drop_take_split [OF o(2,3) le]
    by (simp add: visible_def provisional_def bytes_between_alt F(4,6) de oc fl)
  have pr: "provisional ?v = []"
    by (simp add: provisional_def bytes_between_alt F(4,10) de)
  show ?thesis
    using invr h vis pr by (simp add: mark_post_def F)
qed

lemma set_end_mark_ok:
  assumes inv: "fifo_inv v"
  shows "\<exists>v'. vio_fifo_set_end_mark v = Some v' \<and> mark_post v F_end_ptr v'"
proof -
  have "base v \<noteq> []" using inv by (simp add: fifo_inv_def)
  then have "vio_fifo_set_end_mark v = Some (mark_res v F_end_ptr (put_ptr v))"
    by (simp add: vio_fifo_set_end_mark_def ddl_tail_def mark_res_def)
  then show ?thesis using mark_res_ok [OF inv, of F_end_ptr "put_ptr v"] by simp
qed

lemma step_end_mark_ok:
  assumes inv: "fifo_inv v" and e: "p_end v = F_end_ptr"
  shows "\<exists>v'. vio_fifo_step_end_mark v = Some v' \<and> mark_post v F_end_ptr v'"
proof -
  have b: "base v \<noteq> []" using inv by (simp add: fifo_inv_def)
  have eq: "v\<lparr>end_ptr := put_ptr v, end_lump := last (base v)\<rparr>
      = v\<lparr>p_end := F_end_ptr, end_ptr := put_ptr v, end_lump := last (base v)\<rparr>"
    by (rule vio_fifo.equality) (simp_all add: e)
  have "vio_fifo_step_end_mark v
      = Some (vio_fifo_set_get_end (v\<lparr>end_ptr := put_ptr v, end_lump := last (base v)\<rparr>))"
    using e b by (simp add: vio_fifo_step_end_mark_def vio_fifo_have_end_mark_def ddl_tail_def)
  then have "vio_fifo_step_end_mark v = Some (mark_res v F_end_ptr (put_ptr v))"
    unfolding mark_res_def by (subst (asm) eq)
  then show ?thesis using mark_res_ok [OF inv, of F_end_ptr "put_ptr v"] by simp
qed

lemma clear_end_mark_ok:
  assumes inv: "fifo_inv v"
  shows "\<exists>v'. vio_fifo_clear_end_mark v = Some v' \<and> mark_post v F_put_ptr v'"
proof -
  have b: "base v \<noteq> []" using inv by (simp add: fifo_inv_def)
  have eq: "v\<lparr>p_end := F_put_ptr, end_lump := last (base v)\<rparr>
      = v\<lparr>p_end := F_put_ptr, end_ptr := end_ptr v, end_lump := last (base v)\<rparr>"
    by (rule vio_fifo.equality) simp_all
  have "vio_fifo_clear_end_mark v
      = Some (vio_fifo_set_get_end (v\<lparr>p_end := F_put_ptr, end_lump := last (base v)\<rparr>))"
    using b by (simp add: vio_fifo_clear_end_mark_def ddl_tail_def)
  then have "vio_fifo_clear_end_mark v = Some (mark_res v F_put_ptr (end_ptr v))"
    unfolding mark_res_def by (subst (asm) eq)
  then show ?thesis using mark_res_ok [OF inv, of F_put_ptr "end_ptr v"] by simp
qed

lemma reach_inv_upd [simp]:
  "reach_inv (v\<lparr>hold_ptr := p\<rparr>) = reach_inv v"
  "reach_inv (v\<lparr>get_ptr := p\<rparr>) = reach_inv v"
  "reach_inv (v\<lparr>end_ptr := p\<rparr>) = reach_inv v"
  "reach_inv (v\<lparr>put_ptr := p\<rparr>) = reach_inv v"
  "reach_inv (v\<lparr>put_end := p\<rparr>) = reach_inv v"
  "reach_inv (v\<lparr>p_start := f\<rparr>) = reach_inv v"
  "reach_inv (v\<lparr>mem := m\<rparr>) = reach_inv v"
  by (simp_all add: reach_inv_def spare_inv_def get_end_inv_def spare_list_def)

lemma reach_inv_set_get_end:
  "reach_inv (vio_fifo_set_get_end v) \<longleftrightarrow> spare_inv v \<and> (p_end v = F_put_ptr \<or> p_end v = F_end_ptr)"
  by (simp add: reach_inv_def spare_inv_def get_end_inv_def spare_list_def vio_fifo_set_get_end_def)

lemma spare_inv_upd [simp]:
  "spare_inv (v\<lparr>hold_ptr := p\<rparr>) = spare_inv v"
  "spare_inv (v\<lparr>get_ptr := p\<rparr>) = spare_inv v"
  "spare_inv (v\<lparr>end_ptr := p\<rparr>) = spare_inv v"
  "spare_inv (v\<lparr>put_ptr := p\<rparr>) = spare_inv v"
  "spare_inv (v\<lparr>put_end := p\<rparr>) = spare_inv v"
  "spare_inv (v\<lparr>p_start := f\<rparr>) = spare_inv v"
  "spare_inv (v\<lparr>p_end := f\<rparr>) = spare_inv v"
  "spare_inv (v\<lparr>p_get_end := f\<rparr>) = spare_inv v"
  "spare_inv (v\<lparr>get_lump := l\<rparr>) = spare_inv v"
  "spare_inv (v\<lparr>end_lump := l\<rparr>) = spare_inv v"
  "spare_inv (v\<lparr>mem := m\<rparr>) = spare_inv v"
  by (simp_all add: spare_inv_def spare_list_def)

lemma reset_ptrs_reach:
  assumes "vio_fifo_reset_ptrs v = Some v'" "reach_inv v"
  shows "reach_inv v'"
  using assms by (auto simp: vio_fifo_reset_ptrs_def split: option.splits)

lemma memcpy_in_reach:
  assumes "memcpy_in v p bs = Some v'" "reach_inv v"
  shows "reach_inv v'"
  using assms by (cases p) (auto split: if_splits)

text \<open>A lump taken off the list (the head by \<open>ddl_pop\<close>, the tail by \<open>ddl_crop\<close>) and
  released.\<close>

lemma release_taken:
  assumes inv: "reach_inv v"
    and tk: "distinct (l # rest)" "set (l # rest) = set (base v)"
    and rel: "vio_fifo_release_lump (v\<lparr>base := rest\<rparr>) (Some l) = Some v'"
  shows "reach_inv v'" "base v' = rest"
proof -
  have s: "distinct (base v @ spare_list v @ freed v)"
    "set (base v @ spare_list v @ freed v) = {..nalloc v}" "own_lump \<notin> set (freed v)"
    and g: "get_end_inv v"
    using inv by (simp_all add: reach_inv_def spare_inv_def)
  have l: "l \<in> set (base v)" "l \<notin> set rest" using tk by auto
  show "base v' = rest"
    using rel by (auto simp: vio_fifo_release_lump_def XFREE_def split: option.splits if_splits)
  have g': "get_end_inv v'"
    using rel g
    by (auto simp: vio_fifo_release_lump_def XFREE_def get_end_inv_def
        split: option.splits if_splits)
  have "spare_inv v'"
  proof (cases "spare v")
    case None
    then have "v' = v\<lparr>base := rest, spare := Some l\<rparr>"
      using rel by (auto simp: vio_fifo_release_lump_def split: if_splits)
    then show ?thesis
      using s l tk None by (auto simp: spare_inv_def spare_list_def)
  next
    case (Some sp)
    show ?thesis
    proof (cases "l = own_lump")
      case True
      then have "v' = XFREE (v\<lparr>base := rest, spare := Some own_lump\<rparr>) sp"
        using rel Some by (auto simp: vio_fifo_release_lump_def split: if_splits)
      then show ?thesis
        using s l tk Some True by (auto simp: spare_inv_def spare_list_def XFREE_def)
    next
      case False
      then have "v' = XFREE (v\<lparr>base := rest\<rparr>) l"
        using rel Some by (auto simp: vio_fifo_release_lump_def split: if_splits)
      then show ?thesis
        using s l tk Some False by (auto simp: spare_inv_def spare_list_def XFREE_def)
    qed
  qed
  then show "reach_inv v'" using g' by (simp add: reach_inv_def)
qed

lemma reach_inv_distinct: "reach_inv v \<Longrightarrow> distinct (base v)"
  by (simp add: reach_inv_def spare_inv_def)

lemma release_upto_reach:
  assumes "vio_fifo_release_upto v u = Some v'" "reach_inv v"
  shows "reach_inv v'"
  using assms
proof (induction v u rule: vio_fifo_release_upto.induct)
  case (1 v u)
  show ?case
  proof (cases "ddl_head (base v) = Some u")
    case True
    then show ?thesis using "1.prems" by (subst (asm) vio_fifo_release_upto.simps) simp
  next
    case False
    show ?thesis
    proof (cases "base v")
      case Nil
      then show ?thesis using "1.prems"(1) False
        by (subst (asm) vio_fifo_release_upto.simps)
          (simp add: ddl_pop_def vio_fifo_release_lump_def)
    next
      case (Cons l rest)
      then obtain v1 where r: "vio_fifo_release_lump (v\<lparr>base := rest\<rparr>) (Some l) = Some v1"
        and u: "vio_fifo_release_upto v1 u = Some v'"
        using "1.prems"(1) False
        by (subst (asm) vio_fifo_release_upto.simps)
          (auto simp: ddl_pop_def split: option.splits)
      have d: "distinct (l # rest)" "set (l # rest) = set (base v)"
        using reach_inv_distinct [OF "1.prems"(2)] Cons by simp_all
      have i1: "reach_inv v1" using "1.prems"(2) d r by (rule release_taken)
      have pop: "(Some l, rest) = ddl_pop (base v)" using Cons by (simp add: ddl_pop_def)
      show ?thesis by (rule "1.IH" [OF False pop r u i1])
    qed
  qed
qed

lemma crop_loop_reach:
  assumes "vio_fifo_crop_loop v = Some v'" "reach_inv v"
  shows "reach_inv v'"
  using assms
proof (induction v rule: vio_fifo_crop_loop.induct)
  case (1 v)
  show ?case
  proof (cases "base v = []")
    case True
    then show ?thesis using "1.prems"(1)
      by (subst (asm) vio_fifo_crop_loop.simps)
        (simp add: ddl_crop_def vio_fifo_release_lump_def)
  next
    case False
    then obtain v1 where
      r: "vio_fifo_release_lump (v\<lparr>base := butlast (base v)\<rparr>) (Some (last (base v))) = Some v1"
      and u: "if Some (end_lump v1) \<noteq> ddl_tail (base v1) then vio_fifo_crop_loop v1 = Some v'
              else v' = v1"
      using "1.prems"(1)
      by (subst (asm) vio_fifo_crop_loop.simps)
        (auto simp: ddl_crop_def split: option.splits if_splits)
    have b: "base v = butlast (base v) @ [last (base v)]" using False by simp
    have "distinct (butlast (base v) @ [last (base v)])"
      using reach_inv_distinct [OF "1.prems"(2)] b by simp
    then have d: "distinct (last (base v) # butlast (base v))" by simp
    have "set (butlast (base v) @ [last (base v)]) = set (base v)" using b by simp
    then have e: "set (last (base v) # butlast (base v)) = set (base v)" by simp
    have i1: "reach_inv v1" using "1.prems"(2) d e r by (rule release_taken)
    show ?thesis
    proof (cases "Some (end_lump v1) \<noteq> ddl_tail (base v1)")
      case True
      then have c: "vio_fifo_crop_loop v1 = Some v'" using u by simp
      have crop: "(Some (last (base v)), butlast (base v)) = ddl_crop (base v)"
        using \<open>base v \<noteq> []\<close> by (simp add: ddl_crop_def)
      show ?thesis by (rule "1.IH" [OF crop r True c i1])
    next
      case False
      then show ?thesis using u i1 by simp
    qed
  qed
qed

lemma add_lump_lumps:
  assumes "vio_fifo_add_lump v = Some v'"
  shows "spare v' = None" "freed v' = freed v"
    "base v' = base v @ [case spare v of Some sp \<Rightarrow> sp | None \<Rightarrow> Suc (nalloc v)]"
    "nalloc v' = (case spare v of Some sp \<Rightarrow> nalloc v | None \<Rightarrow> Suc (nalloc v))"
    "p_end v' = p_end v"
    "p_get_end v' = (if get_lump v' = end_lump v' then p_end v' else F_lump_end (get_lump v'))"
  using assms
  by (cases "spare v";
      auto simp: vio_fifo_add_lump_def Let_def XMALLOC_def vio_fifo_set_get_end_def ddl_append_def
        split: if_splits)+

lemma add_lump_reach:
  assumes a: "vio_fifo_add_lump v = Some v'" and inv: "reach_inv v"
  shows "reach_inv v'"
proof -
  note f = add_lump_lumps [OF a]
  have s: "distinct (base v @ spare_list v @ freed v)"
    "set (base v @ spare_list v @ freed v) = {..nalloc v}" "own_lump \<notin> set (freed v)"
    and g: "p_end v = F_put_ptr \<or> p_end v = F_end_ptr"
    using inv by (simp_all add: reach_inv_def spare_inv_def get_end_inv_def)
  have "spare_inv v'"
  proof (cases "spare v")
    case None
    have "Suc (nalloc v) \<notin> {..nalloc v}" by simp
    then have "Suc (nalloc v) \<notin> set (base v @ spare_list v @ freed v)" using s(2) by simp
    moreover have "{..Suc (nalloc v)} = insert (Suc (nalloc v)) {..nalloc v}" by auto
    ultimately show ?thesis
      using s None unfolding spare_inv_def spare_list_def f by auto
  next
    case (Some sp)
    then show ?thesis
      using s unfolding spare_inv_def spare_list_def f by auto
  qed
  moreover have "get_end_inv v'" using g f(5,6) by (simp add: get_end_inv_def)
  ultimately show ?thesis by (simp add: reach_inv_def)
qed

lemma put_bytes_reach_aux:
  assumes "vio_fifo_put_bytes v src = Some v'"
  shows "reach_inv v \<longrightarrow> reach_inv v'"
proof (rule vio_fifo_put_bytes.raw_induct
    [where P = "\<lambda>v src v'. reach_inv v \<longrightarrow> reach_inv v'", OF _ assms], goal_cases)
  case (1 f v src v')
  show ?case
  proof
    assume inv: "reach_inv v"
    show "reach_inv v'"
    proof (cases "0 < length src")
      case False
      then show ?thesis using 1(2) inv by simp
    next
      case True
      then obtain full v1 room v2 where
        a: "(if full then vio_fifo_add_lump v else Some v) = Some v1"
        and m: "memcpy_in v1 (put_ptr v1)
                  (take (if length src < room then length src else room) src) = Some v2"
        and r: "f (v2\<lparr>put_ptr := ptr_add (put_ptr v2)
                     (if length src < room then length src else room)\<rparr>)
                  (drop (if length src < room then length src else room) src) = Some v'"
        using 1(2) by (auto simp: bind_eq_Some_conv Let_def)
      have "reach_inv v1" using a inv add_lump_reach by (cases full) auto
      then have "reach_inv v2" using m memcpy_in_reach by blast
      then show ?thesis using 1(1) [OF r] by simp
    qed
  qed
qed

lemma put_bytes_reach:
  assumes "vio_fifo_put_bytes v src = Some v'" "reach_inv v"
  shows "reach_inv v'"
  using put_bytes_reach_aux assms by blast

lemma set_get_ptr_reach:
  assumes "reach_inv v"
  shows "reach_inv (vio_fifo_set_get_ptr v l p)"
  using assms
  by (simp add: vio_fifo_set_get_ptr_def reach_inv_set_get_end)
    (simp add: reach_inv_def get_end_inv_def)

lemma sync_get_reach:
  assumes "vio_fifo_sync_get v = Some v'" "reach_inv v"
  shows "reach_inv v'"
proof (cases "get_lump v = end_lump v")
  case True
  then show ?thesis
    using assms reset_ptrs_reach by (auto simp: vio_fifo_sync_get_def split: if_splits)
next
  case False
  then obtain gl where
    r: "(if \<not> vio_fifo_have_hold_mark (vio_fifo_set_get_ptr v gl (Ptr gl 0))
         then vio_fifo_release_upto (vio_fifo_set_get_ptr v gl (Ptr gl 0)) gl
         else Some (vio_fifo_set_get_ptr v gl (Ptr gl 0))) = Some v'"
    using assms(1) by (auto simp: vio_fifo_sync_get_def Let_def split: option.splits)
  have "reach_inv (vio_fifo_set_get_ptr v gl (Ptr gl 0))"
    using assms(2) by (rule set_get_ptr_reach)
  then show ?thesis using r release_upto_reach by (auto split: if_splits)
qed

lemma step_reach:
  assumes "vio_fifo_step v n = Some v'" "reach_inv v"
  shows "reach_inv v'"
  using assms sync_get_reach [of "v\<lparr>get_ptr := ptr_add (get_ptr v) n\<rparr>" v']
  by (auto simp: vio_fifo_step_def Let_def bind_eq_Some_conv split: if_splits)

lemma get_bytes_reach:
  assumes "vio_fifo_get_bytes v n = Some (v', bs)" "reach_inv v"
  shows "reach_inv v'"
  using assms
proof (induction v n arbitrary: bs rule: vio_fifo_get_bytes.induct)
  case (1 v n)
  show ?case
  proof (cases "0 < n")
    case False
    then show ?thesis using "1.prems" by (subst (asm) vio_fifo_get_bytes.simps) simp
  next
    case True
    then obtain hv where h: "ptr_diff (deref v (p_get_end v)) (get_ptr v) = Some hv"
      using "1.prems"(1)
      by (subst (asm) vio_fifo_get_bytes.simps) (auto split: option.splits)
    show ?thesis
    proof (cases "\<not> n < hv \<and> hv = 0")
      case True
      then show ?thesis using "1.prems" \<open>0 < n\<close> h
        by (subst (asm) vio_fifo_get_bytes.simps) simp
    next
      case False
      define tk where "tk = (if n < hv then n else hv)"
      obtain o1 v1 rest where m: "memcpy_out v (get_ptr v) tk = Some o1"
        and s: "vio_fifo_step v tk = Some v1"
        and r: "vio_fifo_get_bytes v1 (n - tk) = Some (v', rest)"
        using "1.prems"(1) \<open>0 < n\<close> h False
        by (subst (asm) vio_fifo_get_bytes.simps)
          (auto simp: tk_def Let_def split: option.splits if_splits)
      have i1: "reach_inv v1" using s "1.prems"(2) by (rule step_reach)
      show ?thesis
        by (rule "1.IH" [OF \<open>0 < n\<close> h False tk_def m s r i1])
    qed
  qed
qed

lemma new_reach: "reach_inv (vio_fifo_new sz)"
  by (simp add: reach_inv_def spare_inv_def get_end_inv_def spare_list_def vio_fifo_new_def
      Let_def ddl_append_def own_lump_def)

lemma reach_put_ptr: "reach_inv v \<Longrightarrow> reach_inv (v\<lparr>put_ptr := p\<rparr>)"
  by simp

lemma read_loop_reach:
  "vio_fifo_read_loop v fd request tot = Some (v', r) \<Longrightarrow> reach_inv v \<Longrightarrow> reach_inv v'"
proof (induction fd arbitrary: v request tot)
  case Nil
  then show ?case using add_lump_reach by (auto simp: bind_eq_Some_conv split: if_splits)
next
  case (Cons x fd)
  show ?case
    using Cons.prems
    by (auto simp: bind_eq_Some_conv Let_def split: if_splits;
        blast intro: Cons.IH memcpy_in_reach add_lump_reach reach_put_ptr)
qed

lemma write_loop_reach:
  "vio_fifo_write_loop v fd all out = Some (v', r, out') \<Longrightarrow> reach_inv v \<Longrightarrow> reach_inv v'"
proof (induction fd arbitrary: v out all)
  case Nil
  then show ?case
    by (auto simp: bind_eq_Some_conv split: if_splits intro: step_reach)
next
  case (Cons w fd)
  show ?case
    using Cons.prems
    by (auto simp: bind_eq_Some_conv Let_def split: if_splits;
        blast intro: Cons.IH step_reach)
qed

lemma copy_loop_reach_aux:
  assumes "vio_fifo_copy_loop dst src sl sp = Some dst'"
  shows "reach_inv dst \<longrightarrow> reach_inv dst'"
proof (rule vio_fifo_copy_loop.raw_induct
    [where P = "\<lambda>dst src sl sp dst'. reach_inv dst \<longrightarrow> reach_inv dst'", OF _ assms], goal_cases)
  case (1 f dst src sl sp dst')
  show ?case
    using 1(2)
    by (auto simp: bind_eq_Some_conv Let_def split: if_splits;
        blast intro: 1(1) [rule_format] put_bytes_reach)
qed

lemma copy_tail_loop_reach_aux:
  assumes "vio_fifo_copy_tail_loop dst src sl sp = Some dst'"
  shows "reach_inv dst \<longrightarrow> reach_inv dst'"
proof (rule vio_fifo_copy_tail_loop.raw_induct
    [where P = "\<lambda>dst src sl sp dst'. reach_inv dst \<longrightarrow> reach_inv dst'", OF _ assms], goal_cases)
  case (1 f dst src sl sp dst')
  show ?case
    using 1(2)
    by (auto simp: bind_eq_Some_conv Let_def split: if_splits;
        blast intro: 1(1) [rule_format] put_bytes_reach)
qed

lemma copy_reach:
  assumes "vio_fifo_copy dst src = Some d'" "\<forall>d. dst = Some d \<longrightarrow> reach_inv d"
  shows "reach_inv d'"
  using assms copy_loop_reach_aux new_reach
  by (cases dst) (auto simp: vio_fifo_copy_def Let_def)

lemma copy_tail_reach:
  assumes "vio_fifo_copy_tail dst src = Some d'" "\<forall>d. dst = Some d \<longrightarrow> reach_inv d"
  shows "reach_inv d'"
  using assms copy_tail_loop_reach_aux new_reach
  by (cases dst) (auto simp: vio_fifo_copy_tail_def Let_def split: if_splits)

lemma reach_inv_p_end: "reach_inv v \<Longrightarrow> p_end v = F_put_ptr \<or> p_end v = F_end_ptr"
  by (simp add: reach_inv_def get_end_inv_def)

lemma reach_inv_spare: "reach_inv v \<Longrightarrow> spare_inv v"
  by (simp add: reach_inv_def)

lemma reach_inv_same_lump:
  assumes "spare_inv v" "p_end v = F_put_ptr \<or> p_end v = F_end_ptr"
  shows "reach_inv (v\<lparr>get_lump := l, end_lump := l, p_get_end := p_end v\<rparr>)"
  using assms by (simp add: reach_inv_def get_end_inv_def)

lemma clear_reach:
  assumes "vio_fifo_clear v clear_marks = Some v'" "reach_inv v"
  shows "reach_inv v'"
proof -
  obtain l v1 where r: "vio_fifo_release_upto v l = Some v1"
    and e: "v' = (let v2 = v1\<lparr>get_lump := l, end_lump := l,
                      hold_ptr := Ptr (last (base v1)) 0, get_ptr := Ptr (last (base v1)) 0,
                      end_ptr := Ptr (last (base v1)) 0, put_ptr := Ptr (last (base v1)) 0\<rparr>;
                    v3 = (if clear_marks then v2\<lparr>p_start := F_get_ptr, p_end := F_put_ptr\<rparr>
                          else v2)
                in v3\<lparr>p_get_end := p_end v3\<rparr>)"
    using assms(1)
    by (auto simp: vio_fifo_clear_def vio_fifo_reset_ptrs_def ddl_tail_def bind_eq_Some_conv Let_def
        split: option.splits if_splits)
  have i1: "reach_inv v1" using r assms(2) by (rule release_upto_reach)
  show ?thesis
    using reach_inv_spare [OF i1] reach_inv_p_end [OF i1] unfolding e
    by (cases clear_marks) (auto simp: reach_inv_def get_end_inv_def Let_def)
qed

lemma end_mark_reach:
  assumes "reach_inv v"
  shows "vio_fifo_set_end_mark v = Some v' \<Longrightarrow> reach_inv v'"
    "vio_fifo_step_end_mark v = Some v' \<Longrightarrow> reach_inv v'"
    "vio_fifo_clear_end_mark v = Some v' \<Longrightarrow> reach_inv v'"
  using reach_inv_spare [OF assms] reach_inv_p_end [OF assms] assms
  by (auto simp: vio_fifo_set_end_mark_def vio_fifo_step_end_mark_def vio_fifo_clear_end_mark_def
      vio_fifo_have_end_mark_def reach_inv_set_get_end split: option.splits if_splits)

lemma reach_put_end: "reach_inv v \<Longrightarrow> reach_inv (v\<lparr>put_end := p\<rparr>)"
  by simp

lemma back_to_end_mark_reach:
  assumes "vio_fifo_back_to_end_mark v keep = Some v'" "reach_inv v"
  shows "reach_inv v'"
proof -
  obtain v3 where b: "(if deref v (p_end v) \<noteq> put_ptr v
           then (if Some (end_lump v) \<noteq> ddl_tail (base v)
                 then map_option (\<lambda>w. w\<lparr>put_end := deref w (F_lump_end (end_lump w))\<rparr>)
                        (vio_fifo_crop_loop v)
                 else Some v) \<bind>
                (\<lambda>v1. if deref v1 (p_start v1) = end_ptr v1 then vio_fifo_reset_ptrs v1
                       else Some (v1\<lparr>put_ptr := end_ptr v1\<rparr>))
           else Some v) = Some v3"
    and e: "v' = (if \<not> keep then vio_fifo_set_get_end (v3\<lparr>p_end := F_put_ptr\<rparr>) else v3)"
    using assms(1) by (auto simp: vio_fifo_back_to_end_mark_def bind_eq_Some_conv)
  have "reach_inv v3"
    using b assms(2)
    by (auto simp: bind_eq_Some_conv split: if_splits;
        blast intro: crop_loop_reach reset_ptrs_reach reach_put_ptr reach_put_end)
  then show ?thesis
    unfolding e using reach_inv_spare [of v3]
    by (simp add: reach_inv_set_get_end)
qed

lemma skip_to_end_reach:
  assumes "vio_fifo_skip_to_end v = Some v'" "reach_inv v"
  shows "reach_inv v'"
proof -
  have "reach_inv (v\<lparr>get_lump := end_lump v, get_ptr := deref v (p_end v), p_get_end := p_end v\<rparr>)"
    using assms(2) by (simp add: reach_inv_def get_end_inv_def)
  then show ?thesis
    using assms(1) sync_get_reach unfolding vio_fifo_skip_to_end_def by blast
qed

lemma reach_p_start: "reach_inv v \<Longrightarrow> reach_inv (v\<lparr>p_start := f\<rparr>)"
  by simp

lemma reach_hold_ptr: "reach_inv v \<Longrightarrow> reach_inv (v\<lparr>hold_ptr := p\<rparr>)"
  by simp

lemma hold_mark_reach:
  assumes "reach_inv v"
  shows "vio_fifo_set_hold_mark v = Some v' \<Longrightarrow> reach_inv v'"
    "vio_fifo_clear_hold_mark v = Some v' \<Longrightarrow> reach_inv v'"
    "vio_fifo_back_to_hold_mark v set_it = Some v' \<Longrightarrow> reach_inv v'"
proof -
  show "vio_fifo_set_hold_mark v = Some v' \<Longrightarrow> reach_inv v'"
    using assms
    by (auto simp: vio_fifo_set_hold_mark_def bind_eq_Some_conv split: if_splits;
        blast intro: release_upto_reach reset_ptrs_reach reach_hold_ptr)
  show "vio_fifo_clear_hold_mark v = Some v' \<Longrightarrow> reach_inv v'"
    using assms
    by (auto simp: vio_fifo_clear_hold_mark_def bind_eq_Some_conv split: if_splits;
        blast intro: release_upto_reach reset_ptrs_reach)
  show "vio_fifo_back_to_hold_mark v set_it = Some v' \<Longrightarrow> reach_inv v'"
    using assms set_get_ptr_reach
    by (auto simp: vio_fifo_back_to_hold_mark_def bind_eq_Some_conv split: if_splits)
qed

lemma fifo_reach_inv: "fifo_reach v \<Longrightarrow> reach_inv v"
proof (induction rule: fifo_reach.induct)
  case (reach_new sz)
  show ?case by (rule new_reach)
next
  case (reach_clear v clear_marks v')
  then show ?case using clear_reach by blast
next
  case (reach_add_lump v v')
  then show ?case using add_lump_reach by blast
next
  case (reach_write_at_put v m p)
  then show ?case by simp
next
  case (reach_put_bytes v src v')
  then show ?case using put_bytes_reach by blast
next
  case (reach_read_nb v fd request v' r)
  then show ?case using read_loop_reach unfolding vio_fifo_read_nb_def by blast
next
  case (reach_copy d src d')
  then show ?case using copy_reach [of "Some d" src d'] by simp
next
  case (reach_copy_new src d')
  then show ?case using copy_reach [of None src d'] by simp
next
  case (reach_copy_tail d src d')
  then show ?case using copy_tail_reach [of "Some d" src d'] by simp
next
  case (reach_copy_tail_new src d')
  then show ?case using copy_tail_reach [of None src d'] by simp
next
  case (reach_set_end_mark v v')
  then show ?case using end_mark_reach(1) by blast
next
  case (reach_step_end_mark v v')
  then show ?case using end_mark_reach(2) by blast
next
  case (reach_clear_end_mark v v')
  then show ?case using end_mark_reach(3) by blast
next
  case (reach_back_to_end_mark v keep v')
  then show ?case using back_to_end_mark_reach by blast
next
  case (reach_step v n v')
  then show ?case using step_reach by blast
next
  case (reach_get_bytes v n v' bs)
  then show ?case using get_bytes_reach by blast
next
  case (reach_write_nb v wd all v' r out)
  then show ?case using write_loop_reach unfolding vio_fifo_write_nb_def by blast
next
  case (reach_skip_to_end v v')
  then show ?case using skip_to_end_reach by blast
next
  case (reach_set_hold_mark v v')
  then show ?case using hold_mark_reach(1) by blast
next
  case (reach_clear_hold_mark v v')
  then show ?case using hold_mark_reach(2) by blast
next
  case (reach_back_to_hold_mark v set_it v')
  then show ?case using hold_mark_reach(3) by blast
qed

lemma get_end_cases:
  assumes "get_end_inv w"
  shows "p_get_end w = F_end_ptr \<longleftrightarrow> get_lump w = end_lump w \<and> vio_fifo_have_end_mark w"
    "get_lump w \<noteq> end_lump w \<longrightarrow> p_get_end w = F_lump_end (get_lump w)"
    "get_lump w = end_lump w \<and> \<not> vio_fifo_have_end_mark w \<longrightarrow> p_get_end w = F_put_ptr"
  using assms by (auto simp: get_end_inv_def vio_fifo_have_end_mark_def)

lemma fifo_inv_get_end: "fifo_inv v \<Longrightarrow> get_end_inv v"
  unfolding fifo_inv_def get_end_inv_def by blast

text \<open>
  Claim C4 (the end mark hides what is put after it).  Take a FIFO \<open>v\<close> in a state that
  the source expects (\<open>fifo_inv\<close>), holding the bytes \<open>visible v @ provisional v\<close> to get.
  Put the bytes \<open>A\<close>, set the end mark, and put the bytes \<open>B\<close>; all these calls return.
  Then

  \<^item> a \<open>vio_fifo_get_bytes\<close> request of \<open>n\<close> bytes, however large, returns the first \<open>n\<close>
    of the bytes before the end mark and no byte of \<open>B\<close>: for a fresh FIFO, \<open>A\<close> =
    ABCDE, \<open>B\<close> = FGHIJ and a request of at least 5 bytes it returns exactly ABCDE;
  \<^item> once the bytes before the end mark have been got, further reads return no
    bytes, also after more bytes are put, until \<open>vio_fifo_step_end_mark\<close> or
    \<open>vio_fifo_clear_end_mark\<close> is called; after either the bytes \<open>B\<close> are read;
  \<^item> in each of these states with the end mark set, and in every state \<open>w\<close> of any
    FIFO (from \<open>vio_fifo_new\<close> on, after every call of a function of vio_fifo.c), the
    visible end for GET, \<open>p_get_end\<close>, is the end mark \<open>end_ptr\<close> exactly when
    \<open>get_lump == end_lump\<close> and an end mark is set; else it is the end of GET's lump,
    unless GET is in the end lump with no end mark, when it is \<open>put_ptr\<close>.
\<close>

theorem end_mark_hides_later_bytes:
  assumes "fifo_inv v"
  shows "(\<exists>v1 v2 v3 v4.
     vio_fifo_put_bytes v A = Some v1 \<and>
     vio_fifo_set_end_mark v1 = Some v2 \<and>
     vio_fifo_put_bytes v2 B = Some v3 \<and>
     vio_fifo_get_bytes v3 n = Some (v4, take n (visible v @ provisional v @ A)) \<and>
     (\<forall>u \<in> {v2, v3, v4}. vio_fifo_have_end_mark u \<and>
        (p_get_end u = F_end_ptr \<longleftrightarrow> get_lump u = end_lump u)) \<and>
     (length (visible v @ provisional v @ A) \<le> n \<longrightarrow>
        vio_fifo_get_bytes v4 m = Some (v4, []) \<and>
        (\<exists>v5. vio_fifo_put_bytes v4 bs = Some v5 \<and> vio_fifo_get_bytes v5 m = Some (v5, [])) \<and>
        (\<exists>v5 v6. vio_fifo_step_end_mark v4 = Some v5 \<and>
                  vio_fifo_get_bytes v5 m = Some (v6, take m B)) \<and>
        (\<exists>v5 v6. vio_fifo_clear_end_mark v4 = Some v5 \<and>
                  vio_fifo_get_bytes v5 m = Some (v6, take m B)))) \<and>
   (fifo_reach w \<longrightarrow>
      (p_get_end w = F_end_ptr \<longleftrightarrow> get_lump w = end_lump w \<and> vio_fifo_have_end_mark w) \<and>
      (get_lump w \<noteq> end_lump w \<longrightarrow> p_get_end w = F_lump_end (get_lump w)) \<and>
      (get_lump w = end_lump w \<and> \<not> vio_fifo_have_end_mark w \<longrightarrow> p_get_end w = F_put_ptr))"
proof (rule conjI)
  let ?V = "visible v @ provisional v @ A"
  obtain v1 where 1: "vio_fifo_put_bytes v A = Some v1" and p1: "put_post v A v1"
    using put_bytes_ok [OF assms] by blast
  have i1: "fifo_inv v1" and c1: "visible v1 @ provisional v1 = ?V"
    using p1 provisional_no_mark [of v] by (auto simp: put_post_def)
  obtain v2 where 2: "vio_fifo_set_end_mark v1 = Some v2" and p2: "mark_post v1 F_end_ptr v2"
    using set_end_mark_ok [OF i1] by blast
  have i2: "fifo_inv v2" and vis2: "visible v2 = ?V" and e2: "p_end v2 = F_end_ptr"
    and pr2: "provisional v2 = []"
    using p2 c1 by (simp_all add: mark_post_def)
  obtain v3 where 3: "vio_fifo_put_bytes v2 B = Some v3" and p3: "put_post v2 B v3"
    using put_bytes_ok [OF i2] by blast
  have i3: "fifo_inv v3" and vis3: "visible v3 = ?V" and e3: "p_end v3 = F_end_ptr"
    and pr3: "provisional v3 = B"
    using p3 vis2 e2 pr2 by (simp_all add: put_post_def)
  obtain v4 where 4: "vio_fifo_get_bytes v3 n = Some (v4, take n (visible v3))"
    and p4: "get_post v3 n v4"
    using get_bytes_ok [OF i3] by blast
  have i4: "fifo_inv v4" and vis4: "visible v4 = drop n ?V" and e4: "p_end v4 = F_end_ptr"
    and pr4: "provisional v4 = B"
    using p4 vis3 e3 pr3 by (simp_all add: get_post_def)
  have ends: "\<forall>u \<in> {v2, v3, v4}. vio_fifo_have_end_mark u \<and>
        (p_get_end u = F_end_ptr \<longleftrightarrow> get_lump u = end_lump u)"
    using get_end_cases(1) [OF fifo_inv_get_end [OF i2]]
      get_end_cases(1) [OF fifo_inv_get_end [OF i3]]
      get_end_cases(1) [OF fifo_inv_get_end [OF i4]] e2 e3 e4
    by (simp add: vio_fifo_have_end_mark_def)
  have rest: "vio_fifo_get_bytes v4 m = Some (v4, []) \<and>
        (\<exists>v5. vio_fifo_put_bytes v4 bs = Some v5 \<and> vio_fifo_get_bytes v5 m = Some (v5, [])) \<and>
        (\<exists>v5 v6. vio_fifo_step_end_mark v4 = Some v5 \<and>
                  vio_fifo_get_bytes v5 m = Some (v6, take m B)) \<and>
        (\<exists>v5 v6. vio_fifo_clear_end_mark v4 = Some v5 \<and>
                  vio_fifo_get_bytes v5 m = Some (v6, take m B))"
    if n: "length ?V \<le> n"
  proof (intro conjI)
    have e: "visible v4 = []" using vis4 n by simp
    show "vio_fifo_get_bytes v4 m = Some (v4, [])" using i4 e by (rule get_bytes_empty)
    obtain v5 where a: "vio_fifo_put_bytes v4 bs = Some v5" and pa: "put_post v4 bs v5"
      using put_bytes_ok [OF i4] by blast
    have "fifo_inv v5" "visible v5 = []" using pa e e4 by (simp_all add: put_post_def)
    then have "vio_fifo_get_bytes v5 m = Some (v5, [])" by (rule get_bytes_empty)
    then show "\<exists>v5. vio_fifo_put_bytes v4 bs = Some v5 \<and> vio_fifo_get_bytes v5 m = Some (v5, [])"
      using a by blast
    obtain s5 where b: "vio_fifo_step_end_mark v4 = Some s5" and pb: "mark_post v4 F_end_ptr s5"
      using step_end_mark_ok [OF i4 e4] by blast
    have "fifo_inv s5" and vs: "visible s5 = B"
      using pb e pr4 by (simp_all add: mark_post_def)
    then obtain s6 where "vio_fifo_get_bytes s5 m = Some (s6, take m (visible s5))"
      using get_bytes_ok by blast
    then show "\<exists>v5 v6. vio_fifo_step_end_mark v4 = Some v5 \<and>
                  vio_fifo_get_bytes v5 m = Some (v6, take m B)"
      using b vs by auto
    obtain c5 where c: "vio_fifo_clear_end_mark v4 = Some c5" and pc: "mark_post v4 F_put_ptr c5"
      using clear_end_mark_ok [OF i4] by blast
    have "fifo_inv c5" and vc: "visible c5 = B"
      using pc e pr4 by (simp_all add: mark_post_def)
    then obtain c6 where "vio_fifo_get_bytes c5 m = Some (c6, take m (visible c5))"
      using get_bytes_ok by blast
    then show "\<exists>v5 v6. vio_fifo_clear_end_mark v4 = Some v5 \<and>
                  vio_fifo_get_bytes v5 m = Some (v6, take m B)"
      using c vc by auto
  qed
  have g4: "vio_fifo_get_bytes v3 n = Some (v4, take n ?V)" using 4 vis3 by simp
  show "\<exists>v1 v2 v3 v4.
     vio_fifo_put_bytes v A = Some v1 \<and>
     vio_fifo_set_end_mark v1 = Some v2 \<and>
     vio_fifo_put_bytes v2 B = Some v3 \<and>
     vio_fifo_get_bytes v3 n = Some (v4, take n ?V) \<and>
     (\<forall>u \<in> {v2, v3, v4}. vio_fifo_have_end_mark u \<and>
        (p_get_end u = F_end_ptr \<longleftrightarrow> get_lump u = end_lump u)) \<and>
     (length ?V \<le> n \<longrightarrow>
        vio_fifo_get_bytes v4 m = Some (v4, []) \<and>
        (\<exists>v5. vio_fifo_put_bytes v4 bs = Some v5 \<and> vio_fifo_get_bytes v5 m = Some (v5, [])) \<and>
        (\<exists>v5 v6. vio_fifo_step_end_mark v4 = Some v5 \<and>
                  vio_fifo_get_bytes v5 m = Some (v6, take m B)) \<and>
        (\<exists>v5 v6. vio_fifo_clear_end_mark v4 = Some v5 \<and>
                  vio_fifo_get_bytes v5 m = Some (v6, take m B)))"
  proof (intro exI conjI)
    show "vio_fifo_put_bytes v A = Some v1" by (rule 1)
    show "vio_fifo_set_end_mark v1 = Some v2" by (rule 2)
    show "vio_fifo_put_bytes v2 B = Some v3" by (rule 3)
    show "vio_fifo_get_bytes v3 n = Some (v4, take n ?V)" by (rule g4)
    show "\<forall>u \<in> {v2, v3, v4}. vio_fifo_have_end_mark u \<and>
        (p_get_end u = F_end_ptr \<longleftrightarrow> get_lump u = end_lump u)" by (rule ends)
    show "length ?V \<le> n \<longrightarrow>
        vio_fifo_get_bytes v4 m = Some (v4, []) \<and>
        (\<exists>v5. vio_fifo_put_bytes v4 bs = Some v5 \<and> vio_fifo_get_bytes v5 m = Some (v5, [])) \<and>
        (\<exists>v5 v6. vio_fifo_step_end_mark v4 = Some v5 \<and>
                  vio_fifo_get_bytes v5 m = Some (v6, take m B)) \<and>
        (\<exists>v5 v6. vio_fifo_clear_end_mark v4 = Some v5 \<and>
                  vio_fifo_get_bytes v5 m = Some (v6, take m B))"
      using rest by blast
  qed
next
  show "fifo_reach w \<longrightarrow>
      (p_get_end w = F_end_ptr \<longleftrightarrow> get_lump w = end_lump w \<and> vio_fifo_have_end_mark w) \<and>
      (get_lump w \<noteq> end_lump w \<longrightarrow> p_get_end w = F_lump_end (get_lump w)) \<and>
      (get_lump w = end_lump w \<and> \<not> vio_fifo_have_end_mark w \<longrightarrow> p_get_end w = F_put_ptr)"
  proof
    assume "fifo_reach w"
    then have "reach_inv w" by (rule fifo_reach_inv)
    then have g: "get_end_inv w" by (simp add: reach_inv_def)
    show "(p_get_end w = F_end_ptr \<longleftrightarrow> get_lump w = end_lump w \<and> vio_fifo_have_end_mark w) \<and>
      (get_lump w \<noteq> end_lump w \<longrightarrow> p_get_end w = F_lump_end (get_lump w)) \<and>
      (get_lump w = end_lump w \<and> \<not> vio_fifo_have_end_mark w \<longrightarrow> p_get_end w = F_put_ptr)"
      using get_end_cases [OF g] by blast
  qed
qed

lemma end_mark_state_fields:
  "map_option (\<lambda>x. (base x, get_lump x, end_lump x, p_end x, p_get_end x, get_ptr x, end_ptr x,
       put_ptr x)) end_mark_state =
   Some ([1], 1, 1, F_end_ptr, F_end_ptr, Ptr 1 0, Ptr 1 2, Ptr 1 5)"
  by code_simp

lemma end_mark_state_reach:
  assumes "end_mark_state = Some x"
  shows "fifo_reach x"
proof -
  obtain v1 v2 v3 b4 where
    1: "vio_fifo_put_bytes (vio_fifo_new 128) (replicate 130 CHR ''a'') = Some v1"
    and 2: "vio_fifo_set_end_mark v1 = Some v2"
    and 3: "vio_fifo_put_bytes v2 ''XYZ'' = Some v3"
    and 4: "vio_fifo_get_bytes v3 128 = Some (x, b4)"
    using assms unfolding end_mark_state_def
    by (auto simp: bind_eq_Some_conv split: prod.splits)
  have "fifo_reach v1" using reach_new 1 by (rule reach_put_bytes)
  then have "fifo_reach v2" using 2 by (rule reach_set_end_mark)
  then have "fifo_reach v3" using 3 by (rule reach_put_bytes)
  then show ?thesis using 4 by (rule reach_get_bytes)
qed

theorem end_mark_hides_later_bytes_witness:
  "fifo_inv (vio_fifo_new 128) \<and>
   (\<exists>v1 v2 v3 v4.
     vio_fifo_put_bytes (vio_fifo_new 128) ''ABCDE'' = Some v1 \<and>
     vio_fifo_set_end_mark v1 = Some v2 \<and>
     vio_fifo_put_bytes v2 ''FGHIJ'' = Some v3 \<and>
     vio_fifo_get_bytes v3 100 = Some (v4, ''ABCDE'') \<and>
     vio_fifo_have_end_mark v4 \<and>
     vio_fifo_get_bytes v4 7 = Some (v4, []) \<and>
     (\<exists>v5 v6. vio_fifo_step_end_mark v4 = Some v5 \<and>
               vio_fifo_get_bytes v5 7 = Some (v6, ''FGHIJ''))) \<and>
   (\<exists>w. end_mark_state = Some w \<and> fifo_reach w \<and> vio_fifo_have_end_mark w \<and>
      get_lump w = end_lump w \<and> p_get_end w = F_end_ptr)"
proof -
  obtain w where sw: "end_mark_state = Some w"
    and f: "get_lump w = 1" "end_lump w = 1" "p_end w = F_end_ptr"
    using end_mark_state_fields by auto
  have r: "fifo_reach w" using sw by (rule end_mark_state_reach)
  note t = end_mark_hides_later_bytes [OF new_inv_128,
      where A = "''ABCDE''" and B = "''FGHIJ''" and n = 100 and m = 7 and bs = "[]" and w = w]
  have a: "\<exists>v1 v2 v3 v4.
     vio_fifo_put_bytes (vio_fifo_new 128) ''ABCDE'' = Some v1 \<and>
     vio_fifo_set_end_mark v1 = Some v2 \<and>
     vio_fifo_put_bytes v2 ''FGHIJ'' = Some v3 \<and>
     vio_fifo_get_bytes v3 100 = Some (v4, ''ABCDE'') \<and>
     vio_fifo_have_end_mark v4 \<and>
     vio_fifo_get_bytes v4 7 = Some (v4, []) \<and>
     (\<exists>v5 v6. vio_fifo_step_end_mark v4 = Some v5 \<and>
               vio_fifo_get_bytes v5 7 = Some (v6, ''FGHIJ''))"
    using t [THEN conjunct1] by (simp add: new_views) blast
  have b: "p_get_end w = F_end_ptr"
    using t [THEN conjunct2] r f by (simp add: vio_fifo_have_end_mark_def)
  show ?thesis
    using new_inv_128 a sw r f b by (auto simp: vio_fifo_have_end_mark_def)
qed

lemma spare_inv_own:
  assumes "spare_inv v"
  shows "own_lump \<in> set (base v) \<or> spare v = Some own_lump"
proof -
  have "own_lump \<in> {..nalloc v}" by (simp add: own_lump_def)
  then have "own_lump \<in> set (base v @ spare_list v @ freed v)"
    using assms by (simp add: spare_inv_def)
  moreover have "own_lump \<notin> set (freed v)" using assms by (simp add: spare_inv_def)
  ultimately show ?thesis by (auto simp: spare_list_def split: option.splits)
qed

lemma spare_inv_held:
  assumes "spare_inv v" "l \<le> nalloc v"
  shows "l \<in> set (base v) \<or> spare v = Some l \<or> l \<in> set (freed v)"
proof -
  have "l \<in> set (base v @ spare_list v @ freed v)"
    using assms by (simp add: spare_inv_def)
  then show ?thesis by (auto simp: spare_list_def split: option.splits)
qed

lemma spare_inv_apart:
  assumes "spare_inv v" "spare v = Some sp"
  shows "sp \<notin> set (base v)" "sp \<notin> set (freed v)" "set (base v) \<inter> set (freed v) = {}"
    "distinct (freed v)"
  using assms by (auto simp: spare_inv_def spare_list_def)

lemma taken_off:
  assumes "ddl_pop b = (Some l, rest) \<or> ddl_crop b = (Some l, rest)" "distinct b"
  shows "distinct (l # rest)" "set (l # rest) = set b"
proof -
  have "b = l # rest \<or> b = rest @ [l]"
    using assms(1)
    by (auto simp: ddl_pop_def ddl_crop_def split: list.splits if_splits)
  then show "distinct (l # rest)" "set (l # rest) = set b" using assms(2) by auto
qed

lemma release_lump_cases:
  assumes "vio_fifo_release_lump w (Some l) = Some v'"
  shows "spare w = None \<longrightarrow> spare v' = Some l \<and> freed v' = freed w"
    "\<forall>sp. spare w = Some sp \<and> l = own_lump \<longrightarrow>
       spare v' = Some own_lump \<and> freed v' = sp # freed w"
    "\<forall>sp. spare w = Some sp \<and> l \<noteq> own_lump \<longrightarrow> spare v' = Some sp \<and> freed v' = l # freed w"
  using assms
  by (auto simp: vio_fifo_release_lump_def XFREE_def split: option.splits if_splits)

text \<open>
  Claim C7 (one spare lump; the embedded lump is never freed).  In every state of a
  FIFO, from \<open>vio_fifo_new\<close> on and after every call of a function of vio_fifo.c:

  \<^item> \<open>own_lump\<close> is in the list or is the spare, and has not been given to \<open>XFREE\<close>;
  \<^item> every lump there is (\<open>own_lump\<close> and the lumps from \<open>XMALLOC\<close>) is in the list, or is
    the spare, or has been freed, so the one lump of the field \<open>spare\<close> is all that
    is held outside the list; the spare is not in the list and has not been freed;
  \<^item> when a lump is taken off the list, by \<open>ddl_pop\<close> in \<open>vio_fifo_release_upto\<close> or by
    \<open>ddl_crop\<close> in \<open>vio_fifo_back_to_end_mark\<close>, and given to \<open>vio_fifo_release_lump\<close>:
    with no spare the lump becomes the spare and nothing is freed; with a spare,
    one lump is freed, the lump itself, unless it is \<open>own_lump\<close>, when the spare is
    freed (it is not \<open>own_lump\<close>) and \<open>own_lump\<close> becomes the spare; afterwards
    \<open>own_lump\<close> is again in the list or the spare and has not been freed;
  \<^item> \<open>vio_fifo_add_lump\<close> appends the spare when there is one and allocates nothing;
    it allocates a lump only when there is no spare.
\<close>

theorem spare_lump_policy:
  assumes "fifo_reach v"
  shows "(own_lump \<in> set (base v) \<or> spare v = Some own_lump) \<and>
     own_lump \<notin> set (freed v) \<and>
     (\<forall>l. l \<le> nalloc v \<longrightarrow> l \<in> set (base v) \<or> spare v = Some l \<or> l \<in> set (freed v)) \<and>
     (\<forall>sp. spare v = Some sp \<longrightarrow> sp \<notin> set (base v) \<and> sp \<notin> set (freed v)) \<and>
     (\<forall>l rest v'.
        (ddl_pop (base v) = (Some l, rest) \<or> ddl_crop (base v) = (Some l, rest)) \<and>
        vio_fifo_release_lump (v\<lparr>base := rest\<rparr>) (Some l) = Some v' \<longrightarrow>
          base v' = rest \<and>
          (spare v = None \<longrightarrow> spare v' = Some l \<and> freed v' = freed v) \<and>
          (\<forall>sp. spare v = Some sp \<and> l = own_lump \<longrightarrow>
             spare v' = Some own_lump \<and> freed v' = sp # freed v \<and> sp \<noteq> own_lump) \<and>
          (\<forall>sp. spare v = Some sp \<and> l \<noteq> own_lump \<longrightarrow>
             spare v' = Some sp \<and> freed v' = l # freed v) \<and>
          own_lump \<notin> set (freed v') \<and>
          (own_lump \<in> set (base v') \<or> spare v' = Some own_lump)) \<and>
     (\<forall>v'. vio_fifo_add_lump v = Some v' \<longrightarrow>
          spare v' = None \<and> freed v' = freed v \<and>
          (\<forall>sp. spare v = Some sp \<longrightarrow> base v' = base v @ [sp] \<and> nalloc v' = nalloc v) \<and>
          (spare v = None \<longrightarrow>
             base v' = base v @ [Suc (nalloc v)] \<and> nalloc v' = Suc (nalloc v)))"
proof (intro conjI allI impI)
  have inv: "reach_inv v" using assms by (rule fifo_reach_inv)
  then have s: "spare_inv v" by (rule reach_inv_spare)
  show "own_lump \<in> set (base v) \<or> spare v = Some own_lump" using s by (rule spare_inv_own)
  show "own_lump \<notin> set (freed v)" using s by (simp add: spare_inv_def)
  show "l \<in> set (base v) \<or> spare v = Some l \<or> l \<in> set (freed v)" if "l \<le> nalloc v" for l
    using s that by (rule spare_inv_held)
  show "sp \<notin> set (base v)" if "spare v = Some sp" for sp using s that by (rule spare_inv_apart)
  show "sp \<notin> set (freed v)" if "spare v = Some sp" for sp using s that by (rule spare_inv_apart)
  fix l rest v'
  assume a: "(ddl_pop (base v) = (Some l, rest) \<or> ddl_crop (base v) = (Some l, rest)) \<and>
        vio_fifo_release_lump (v\<lparr>base := rest\<rparr>) (Some l) = Some v'"
  then have rel: "vio_fifo_release_lump (v\<lparr>base := rest\<rparr>) (Some l) = Some v'" by simp
  have d: "distinct (l # rest)" and e: "set (l # rest) = set (base v)"
    using a taken_off [of "base v" l rest] reach_inv_distinct [OF inv] by blast+
  have inv': "reach_inv v'" and b': "base v' = rest"
    using release_taken [OF inv d e rel] by simp_all
  show "base v' = rest" by (rule b')
  note c = release_lump_cases [OF rel]
  show "spare v' = Some l" if "spare v = None" using c(1) that by simp
  show "freed v' = freed v" if "spare v = None" using c(1) that by simp
  show "spare v' = Some own_lump" if "spare v = Some sp \<and> l = own_lump" for sp
    using c(2) that by simp
  show "freed v' = sp # freed v" if "spare v = Some sp \<and> l = own_lump" for sp
    using c(2) that by simp
  show "sp \<noteq> own_lump" if "spare v = Some sp \<and> l = own_lump" for sp
  proof -
    have "sp \<notin> set (base v)" using s that by (simp add: spare_inv_apart)
    moreover have "l \<in> set (base v)" using e by auto
    ultimately show ?thesis using that by auto
  qed
  show "spare v' = Some sp" if "spare v = Some sp \<and> l \<noteq> own_lump" for sp
    using c(3) that by simp
  show "freed v' = l # freed v" if "spare v = Some sp \<and> l \<noteq> own_lump" for sp
    using c(3) that by simp
  have s': "spare_inv v'" using inv' by (rule reach_inv_spare)
  show "own_lump \<notin> set (freed v')" using s' by (simp add: spare_inv_def)
  show "own_lump \<in> set (base v') \<or> spare v' = Some own_lump" using s' by (rule spare_inv_own)
next
  fix v' assume a: "vio_fifo_add_lump v = Some v'"
  note f = add_lump_lumps [OF a]
  show "spare v' = None" by (rule f)
  show "freed v' = freed v" by (rule f)
  show "base v' = base v @ [sp]" if "spare v = Some sp" for sp using f(3) that by simp
  show "nalloc v' = nalloc v" if "spare v = Some sp" for sp using f(4) that by simp
  show "base v' = base v @ [Suc (nalloc v)]" if "spare v = None" using f(3) that by simp
  show "nalloc v' = Suc (nalloc v)" if "spare v = None" using f(4) that by simp
qed

lemma spare_scenario_fields:
  "map_option (\<lambda>x. (base x, spare x, freed x, nalloc x, put_ptr x, put_end x, get_lump x,
       end_lump x, p_start x, hold_ptr x)) spare_scenario =
   Some ([own_lump, 3], Some 2, [1], 3, Ptr 3 128, Ptr 3 128, 3, 3, F_hold_ptr, Ptr own_lump 0)"
  by code_simp

lemma spare_scenario_reach:
  assumes "spare_scenario = Some x"
  shows "fifo_reach x"
proof -
  obtain v1 v2 b2 v3 v4 b4 v5 b6 where
    1: "vio_fifo_put_bytes (vio_fifo_new 128) (replicate 300 CHR ''a'') = Some v1"
    and 2: "vio_fifo_get_bytes v1 256 = Some (v2, b2)"
    and 3: "vio_fifo_put_bytes v2 (replicate 340 CHR ''b'') = Some v3"
    and 4: "vio_fifo_get_bytes v3 128 = Some (v4, b4)"
    and 5: "vio_fifo_set_hold_mark v4 = Some v5"
    and 6: "vio_fifo_get_bytes v5 128 = Some (x, b6)"
    using assms unfolding spare_scenario_def
    by (auto simp: bind_eq_Some_conv split: prod.splits)
  have "fifo_reach v1" using reach_new 1 by (rule reach_put_bytes)
  then have "fifo_reach v2" using 2 by (rule reach_get_bytes)
  then have "fifo_reach v3" using 3 by (rule reach_put_bytes)
  then have "fifo_reach v4" using 4 by (rule reach_get_bytes)
  then have "fifo_reach v5" using 5 by (rule reach_set_hold_mark)
  then show ?thesis using 6 by (rule reach_get_bytes)
qed

theorem spare_lump_policy_witness:
  "\<exists>x. spare_scenario = Some x \<and> fifo_reach x \<and>
     base x = [own_lump, 3] \<and> spare x = Some 2 \<and> freed x = [1] \<and> nalloc x = 3 \<and>
     (own_lump \<in> set (base x) \<or> spare x = Some own_lump) \<and>
     (\<exists>v'. vio_fifo_release_lump (x\<lparr>base := [3]\<rparr>) (Some own_lump) = Some v' \<and>
        base v' = [3] \<and> spare v' = Some own_lump \<and> freed v' = [2, 1] \<and>
        own_lump \<notin> set (freed v')) \<and>
     (\<exists>v'. vio_fifo_add_lump x = Some v' \<and>
        base v' = [own_lump, 3, 2] \<and> nalloc v' = 3 \<and> spare v' = None \<and> freed v' = [1])"
proof -
  obtain x where sx: "spare_scenario = Some x"
    and f: "base x = [own_lump, 3]" "spare x = Some 2" "freed x = [1]" "nalloc x = 3"
      "put_ptr x = Ptr 3 128" "put_end x = Ptr 3 128" "get_lump x = 3" "end_lump x = 3"
      "p_start x = F_hold_ptr" "hold_ptr x = Ptr own_lump 0"
    using spare_scenario_fields by auto
  have r: "fifo_reach x" using sx by (rule spare_scenario_reach)
  note p = spare_lump_policy [OF r]
  have pop: "ddl_pop (base x) = (Some own_lump, [3])" by (simp add: f ddl_pop_def)
  obtain v' where rel: "vio_fifo_release_lump (x\<lparr>base := [3]\<rparr>) (Some own_lump) = Some v'"
    by (simp add: vio_fifo_release_lump_def f own_lump_def)
  have a: "base v' = [3] \<and> spare v' = Some own_lump \<and> freed v' = [2, 1] \<and>
        own_lump \<notin> set (freed v')"
    using p [THEN conjunct2, THEN conjunct2, THEN conjunct2, THEN conjunct2, THEN conjunct1,
        rule_format, of own_lump "[3]" v'] pop rel f(2,3)
    by (simp add: own_lump_def)
  obtain w' where add: "vio_fifo_add_lump x = Some w'"
    by (simp add: vio_fifo_add_lump_def f own_lump_def Let_def split: prod.splits)
  have b: "base w' = [own_lump, 3, 2] \<and> nalloc w' = 3 \<and> spare w' = None \<and> freed w' = [1]"
    using p [THEN conjunct2, THEN conjunct2, THEN conjunct2, THEN conjunct2, THEN conjunct2,
        rule_format, of w'] add f(1,2,3,4)
    by simp
  have o: "own_lump \<in> set (base x) \<or> spare x = Some own_lump" using p by blast
  show ?thesis using sx r f(1,2,3,4) o rel a add b by blast
qed
















section \<open>Claims settled on a run of the code\<close>

text \<open>
  Claim C2 (rewind to the hold mark).  The claim: after a hold mark is set at position
  p and bytes are read past p, \<open>vio_fifo_back_to_hold_mark\<close> moves \<open>get\<close> back exactly
  to p, so that what was consumed before the mark is never reproduced.  The code run:
  put HELLOWORLD, get 3 bytes (HEL), set the hold mark, get 7 bytes (LOWORLD), go back
  to the hold mark, get 7 bytes.  \<open>vio_fifo_set_get_ptr\<close> ignores the pointer it is
  given and stores the start of the head lump, so the last read gives HELLOWO: the
  bytes HEL, discarded when the mark was set, come back.
\<close>

theorem back_to_hold_mark_rereads_discarded:
  "do { v1 \<leftarrow> vio_fifo_put_bytes (vio_fifo_new 128) ''HELLOWORLD'';
        (v2, a) \<leftarrow> vio_fifo_get_bytes v1 3;
        v3 \<leftarrow> vio_fifo_set_hold_mark v2;
        (v4, b) \<leftarrow> vio_fifo_get_bytes v3 7;
        v5 \<leftarrow> vio_fifo_back_to_hold_mark v4 False;
        (v6, c) \<leftarrow> vio_fifo_get_bytes v5 7;
        Some (a, b, hold_ptr v4, get_ptr v5, c) }
   = Some (''HEL'', ''LOWORLD'', Ptr own_lump 3, Ptr own_lump 0, ''HELLOWO'')"
  by code_simp

text \<open>
  Claim C5 (an empty FIFO has one lump, all pointers at its start).  The code run:
  a FIFO of 128 byte lumps, put 129 bytes (two lumps), \<open>vio_fifo_skip_to_end\<close>.  The
  FIFO is then empty (\<open>*p_start == put_ptr\<close>) and the pointers are at the start of the
  second lump, but the first lump is still in the list: \<open>vio_fifo_skip_to_end\<close> moves
  \<open>get_lump\<close> to the end lump and releases nothing.
\<close>

theorem skip_to_end_leaves_two_lumps:
  "do { v1 \<leftarrow> vio_fifo_put_bytes (vio_fifo_new 128) (replicate 129 (CHR ''x''));
        v2 \<leftarrow> vio_fifo_skip_to_end v1;
        Some (deref v2 (p_start v2) = put_ptr v2, base v2, get_lump v2, get_ptr v2, put_ptr v2) }
   = Some (True, [own_lump, 1], 1, Ptr 1 0, Ptr 1 0)"
  by code_simp

end
